theory Spec2Isabelle
  imports Complex_Main
begin

section \<open>JavaScript strings\<close>

text \<open>
  A JavaScript string is a sequence of UTF-16 code units; the messages of the program
  contain CJK characters, which are written here by their code units.
  \<^verbatim>\<open>s.includes(pat)\<close> holds when \<open>pat\<close> occurs in \<open>s\<close> as a contiguous
  block.
\<close>

type_synonym jsstring = "nat list"

definition ascii :: "string \<Rightarrow> jsstring" where
  "ascii s = map of_char s"

fun js_includes :: "jsstring \<Rightarrow> jsstring \<Rightarrow> bool" where
  "js_includes [] pat = (pat = [])"
| "js_includes (c # cs) pat = (take (length pat) (c # cs) = pat \<or> js_includes cs pat)"

text \<open>
  \<^verbatim>\<open>n.toString()\<close> and the template literal \<^verbatim>\<open>`${n}`\<close> for a
  non-negative integer: its decimal digits.
\<close>

fun toString :: "nat \<Rightarrow> jsstring" where
  "toString n = (if n < 10 then [48 + n] else toString (n div 10) @ [48 + n mod 10])"

declare toString.simps [simp del]

definition isDigit :: "nat \<Rightarrow> bool" where
  "isDigit c = (48 \<le> c \<and> c \<le> 57)"

text \<open>
  \<^verbatim>\<open>parseInt(s)\<close> on a text that starts with decimal digits; \<open>None\<close> is
  \<^verbatim>\<open>NaN\<close>. Signs and leading white space do not occur in the texts the program
  parses (node identifiers made by \<open>toString\<close>).
\<close>

definition parseInt :: "jsstring \<Rightarrow> nat option" where
  "parseInt s =
     (let ds = takeWhile isDigit s
      in if ds = [] then None else Some (foldl (\<lambda>a c. 10 * a + (c - 48)) 0 ds))"

section \<open>Retry policy of the HTTP layer (services/biliApi.ts)\<close>

subsection \<open>Exponential backoff\<close>

text \<open>
  \<^verbatim>\<open>interface RetryConfig { maxRetries; baseDelayMs; maxDelayMs }\<close>.
  JavaScript numbers are idealised as reals: rounding of IEEE doubles is not modelled.
\<close>

record RetryConfig =
  maxRetries :: nat
  baseDelayMs :: real
  maxDelayMs :: real

definition DEFAULT_RETRY_CONFIG :: RetryConfig where
  "DEFAULT_RETRY_CONFIG = \<lparr>maxRetries = 3, baseDelayMs = 1000, maxDelayMs = 10000\<rparr>"

text \<open>
  \<^verbatim>\<open>calculateBackoffDelay(attempt, config)\<close>. The value returned by
  \<^verbatim>\<open>Math.random()\<close> is the explicit first argument \<open>rnd\<close>; the platform
  promises \<open>0 \<le> rnd < 1\<close>.
\<close>

definition calculateBackoffDelay :: "real \<Rightarrow> nat \<Rightarrow> RetryConfig \<Rightarrow> real" where
  "calculateBackoffDelay rnd attempt config =
     (let exponentialDelay = baseDelayMs config * 2 ^ attempt;
          jitter = rnd * 0.3 * exponentialDelay
      in min (exponentialDelay + jitter) (maxDelayMs config))"

subsection \<open>Retry classification and a single request\<close>

text \<open>
  An \<^verbatim>\<open>Error\<close> object with its message and the ad-hoc property
  \<^verbatim>\<open>statusCode\<close> that \<^verbatim>\<open>executeRequest\<close> attaches to some errors
  (\<open>None\<close> when the property is absent). \<^verbatim>\<open>BiliApiResponse\<close> is an extensible
  record, so \<^verbatim>\<open>T extends BiliApiResponse\<close> is the record scheme.
\<close>

datatype Error = Error (message: jsstring) (statusCode: "nat option")

record BiliApiResponse =
  code :: int
  resp_message :: jsstring

text \<open>
  The message literals of the source, as code units: the network-failure message of
  \<^verbatim>\<open>onerror\<close>, the timeout message of \<^verbatim>\<open>ontimeout\<close>, the risk-control
  message for application code -412, the default message of an application error and the
  message of a parse failure.
\<close>

definition MSG_NETWORK_FAILED :: jsstring where
  "MSG_NETWORK_FAILED = [32593, 32476, 35831, 27714, 22833, 36133]"

definition MSG_TIMEOUT :: jsstring where
  "MSG_TIMEOUT = [35831, 27714, 36229, 26102]"

definition MSG_RISK_CONTROL :: jsstring where
  "MSG_RISK_CONTROL =
     [35831, 27714, 34987, 39118, 25511, 38480, 21046, 65292, 35831, 31245, 21518, 37325, 35797]"

definition MSG_REQUEST_FAILED :: jsstring where
  "MSG_REQUEST_FAILED = [35831, 27714, 22833, 36133]"

definition MSG_PARSE_FAILED :: jsstring where
  "MSG_PARSE_FAILED = [21709, 24212, 35299, 26512, 22833, 36133]"

text \<open>
  The template literal of the HTTP error: the text \<^verbatim>\<open>HTTP\<close>, a space, two CJK
  characters, a colon, a space, the status, a space and the status text.
\<close>

definition http_error_message :: "nat \<Rightarrow> jsstring \<Rightarrow> jsstring" where
  "http_error_message st stx =
     ascii ''HTTP '' @ [38169, 35823] @ ascii '': '' @ toString st @ ascii '' '' @ stx"

text \<open>
  \<^verbatim>\<open>isRetryableError(error, statusCode)\<close>. The guard
  \<^verbatim>\<open>statusCode && (...)\<close> is false for an absent status code and for 0.
\<close>

definition isRetryableError :: "Error \<Rightarrow> nat option \<Rightarrow> bool" where
  "isRetryableError err sc =
     (if (case sc of None \<Rightarrow> False | Some c \<Rightarrow> c \<noteq> 0 \<and> (c = 429 \<or> 500 \<le> c)) then True
      else if js_includes (message err) MSG_NETWORK_FAILED
              \<or> js_includes (message err) MSG_TIMEOUT then True
      else False)"

text \<open>
  \<^verbatim>\<open>executeRequest(url)\<close>: exactly one of the three callbacks of
  \<^verbatim>\<open>GM_xmlhttpRequest\<close> fires; which one, and with what response, is the
  environment's answer \<open>ev\<close>. \<^verbatim>\<open>JSON.parse\<close> is the parameter \<open>parse\<close>;
  \<open>None\<close> stands for a text on which the \<^verbatim>\<open>try\<close> block throws. The result is
  \<open>Inl\<close> for a rejected promise and \<open>Inr\<close> for a resolved one.
\<close>

datatype GM_response =
    OnLoad (status: nat) (statusText: jsstring) (responseText: jsstring)
  | OnError
  | OnTimeout

definition executeRequest ::
  "(jsstring \<Rightarrow> 'm BiliApiResponse_scheme option) \<Rightarrow> GM_response
     \<Rightarrow> Error + ('m BiliApiResponse_scheme \<times> nat)" where
  "executeRequest parse ev =
     (case ev of
        OnLoad st stx body \<Rightarrow>
          if st < 200 \<or> 300 \<le> st then Inl (Error (http_error_message st stx) (Some st))
          else (case parse body of
                  None \<Rightarrow> Inl (Error MSG_PARSE_FAILED None)
                | Some d \<Rightarrow>
                    if code d = 0 then Inr (d, st)
                    else if code d = - 412 then Inl (Error MSG_RISK_CONTROL (Some 429))
                    else Inl (Error (if resp_message d = [] then MSG_REQUEST_FAILED
                                     else resp_message d) None))
      | OnError \<Rightarrow> Inl (Error MSG_NETWORK_FAILED None)
      | OnTimeout \<Rightarrow> Inl (Error MSG_TIMEOUT None))"

section \<open>CacheManager (utils/cacheManager.ts)\<close>

text \<open>
  \<^verbatim>\<open>localStorage\<close> is a map from keys to stored texts. Times are epoch milliseconds,
  as \<^verbatim>\<open>Date.now()\<close> returns them; the current time is an explicit argument.
  \<^verbatim>\<open>getItem\<close> and \<^verbatim>\<open>removeItem\<close> are total; \<^verbatim>\<open>setItem\<close> may throw when
  the quota is exceeded, which the environment decides (\<open>quotaOk\<close>).
\<close>

type_synonym Storage = "jsstring \<rightharpoonup> jsstring"

record 'a CacheItem =
  data :: 'a
  expiry :: int

record CacheConfig =
  expiryDays :: int

definition DEFAULT_CONFIG :: CacheConfig where
  "DEFAULT_CONFIG = \<lparr>expiryDays = 1\<rparr>"

definition prefix :: jsstring where
  "prefix = ascii ''bilibili_helper_''"

text \<open>
  Exceptions are values. \<^verbatim>\<open>JSON.parse\<close> is a parameter: it throws a
  \<^verbatim>\<open>SyntaxError\<close> on a text that is not JSON, and it may return \<^verbatim>\<open>null\<close>,
  on which reading \<^verbatim>\<open>cacheItem.expiry\<close> throws a \<^verbatim>\<open>TypeError\<close>; any other
  value is read through its fields \<^verbatim>\<open>data\<close> and \<^verbatim>\<open>expiry\<close>, as the
  declared type \<^verbatim>\<open>CacheItem<T>\<close> says.
\<close>

datatype exn = Thrown Error | SyntaxError | TypeError | QuotaExceededError

datatype 'a parsed = JNull | JItem "'a CacheItem"

definition setItem :: "bool \<Rightarrow> Storage \<Rightarrow> jsstring \<Rightarrow> jsstring \<Rightarrow> exn + Storage" where
  "setItem quotaOk ls k v = (if quotaOk then Inr (ls(k \<mapsto> v)) else Inl QuotaExceededError)"

definition removeItem :: "Storage \<Rightarrow> jsstring \<Rightarrow> Storage" where
  "removeItem ls k = ls(k := None)"

text \<open>
  \<^verbatim>\<open>set(key, data)\<close>: a failed write is caught and logged, the storage stays as it
  was.
\<close>

definition cache_set ::
  "('a CacheItem \<Rightarrow> jsstring) \<Rightarrow> bool \<Rightarrow> CacheConfig \<Rightarrow> int \<Rightarrow> Storage \<Rightarrow> jsstring \<Rightarrow> 'a
     \<Rightarrow> Storage" where
  "cache_set stringify quotaOk config now ls key d =
     (let expiry = now + expiryDays config * 24 * 60 * 60 * 1000;
          cacheItem = \<lparr>data = d, expiry = expiry\<rparr>
      in case setItem quotaOk ls (prefix @ key) (stringify cacheItem) of
           Inl e \<Rightarrow> ls
         | Inr ls' \<Rightarrow> ls')"

text \<open>\<^verbatim>\<open>remove(key)\<close>.\<close>

definition cache_remove :: "Storage \<Rightarrow> jsstring \<Rightarrow> Storage" where
  "cache_remove ls key = removeItem ls (prefix @ key)"

text \<open>
  \<^verbatim>\<open>get(key)\<close>: \<open>cache_get_body\<close> is the body of the \<^verbatim>\<open>try\<close> block, which
  may throw; \<open>cache_get\<close> adds the \<^verbatim>\<open>catch\<close>, which returns \<^verbatim>\<open>null\<close>
  (\<open>None\<close>). The empty text is falsy, so \<^verbatim>\<open>!item\<close> holds for it as for an
  absent key. The updated storage is returned with the result.
\<close>

definition cache_get_body ::
  "(jsstring \<Rightarrow> exn + 'a parsed) \<Rightarrow> int \<Rightarrow> Storage \<Rightarrow> jsstring
     \<Rightarrow> Storage \<times> (exn + 'a option)" where
  "cache_get_body parse now ls key =
     (case ls (prefix @ key) of
        None \<Rightarrow> (ls, Inr None)
      | Some item \<Rightarrow>
          if item = [] then (ls, Inr None)
          else (case parse item of
                  Inl e \<Rightarrow> (ls, Inl e)
                | Inr JNull \<Rightarrow> (ls, Inl TypeError)
                | Inr (JItem cacheItem) \<Rightarrow>
                    if now > expiry cacheItem then (cache_remove ls key, Inr None)
                    else (ls, Inr (Some (data cacheItem)))))"

definition cache_get ::
  "(jsstring \<Rightarrow> exn + 'a parsed) \<Rightarrow> int \<Rightarrow> Storage \<Rightarrow> jsstring
     \<Rightarrow> Storage \<times> (exn + 'a option)" where
  "cache_get parse now ls key =
     (case cache_get_body parse now ls key of
        (ls', Inl e) \<Rightarrow> (ls', Inr None)
      | (ls', Inr v) \<Rightarrow> (ls', Inr v))"

section \<open>getCommonFollowings with request deduplication (services/biliApi.ts)\<close>

text \<open>
  The module state of the API layer that \<^verbatim>\<open>getCommonFollowings\<close> touches: the
  cache's storage, the map \<^verbatim>\<open>pendingRequests\<close> from pending keys to promises, the
  promises created so far (a promise is named by its index; each carries the identifier it
  was created for and its state), and the log \<open>requested\<close> of the identifiers for which
  \<^verbatim>\<open>request\<close> was called, one entry for every call to it.
\<close>

record 'r CommonFollowingsResult =
  response :: 'r
  fromCache :: bool

datatype 'r promise_state = Pending | Fulfilled "'r CommonFollowingsResult" | RejectedWith Error

datatype 'r returned = Immediately "'r CommonFollowingsResult" | Awaiting nat | Raised exn

record 'r ApiState =
  localStorage :: Storage
  pendingRequests :: "jsstring \<rightharpoonup> nat"
  promises :: "(nat \<times> 'r promise_state) list"
  requested :: "nat list"

text \<open>The template literals of the cache key and the pending key.\<close>

definition cacheKey :: "nat \<Rightarrow> jsstring" where
  "cacheKey vmid = ascii ''common_followings_'' @ toString vmid"

definition pendingKey :: "nat \<Rightarrow> jsstring" where
  "pendingKey vmid = ascii ''pending_'' @ toString vmid"

text \<open>
  \<^verbatim>\<open>getCommonFollowings(vmid, useCache)\<close>, the part that runs synchronously when
  it is called. No \<^verbatim>\<open>await\<close> precedes the registration in
  \<^verbatim>\<open>pendingRequests\<close>: the inner async function calls \<^verbatim>\<open>request\<close> and
  suspends at its first \<^verbatim>\<open>await\<close>, so its \<^verbatim>\<open>finally\<close> block runs later,
  in \<open>settle\<close>. The call returns a result that is there already (a cache hit), or the
  promise the caller awaits. A truthy \<^verbatim>\<open>cached\<close> is \<open>Some\<close>.
\<close>

definition getCommonFollowings ::
  "(jsstring \<Rightarrow> exn + 'r parsed) \<Rightarrow> int \<Rightarrow> nat \<Rightarrow> bool \<Rightarrow> 'r ApiState
     \<Rightarrow> 'r ApiState \<times> 'r returned" where
  "getCommonFollowings parse now vmid useCache s =
     (let (ls, cached) =
            (if useCache then cache_get parse now (localStorage s) (cacheKey vmid)
             else (localStorage s, Inr None));
          s1 = s\<lparr>localStorage := ls\<rparr>
      in case cached of
           Inl e \<Rightarrow> (s1, Raised e)
         | Inr (Some c) \<Rightarrow> (s1, Immediately \<lparr>response = c, fromCache = True\<rparr>)
         | Inr None \<Rightarrow>
             (case pendingRequests s1 (pendingKey vmid) of
                Some p \<Rightarrow> (s1, Awaiting p)
              | None \<Rightarrow>
                  (let p = length (promises s1)
                   in (s1\<lparr>promises := promises s1 @ [(vmid, Pending)],
                          requested := requested s1 @ [vmid],
                          pendingRequests := (pendingRequests s1)(pendingKey vmid \<mapsto> p)\<rparr>,
                       Awaiting p))))"

text \<open>
  The rest of the inner async function, run when \<^verbatim>\<open>request\<close> settles for the
  promise \<open>p\<close> with \<open>outcome\<close> (\<open>Inl\<close> the error it throws, \<open>Inr\<close> the response):
  on success the response is cached; the \<^verbatim>\<open>finally\<close> block deletes the pending
  entry on both paths; the promise is fulfilled or rejected. A promise that is not pending
  has no request to settle, and the state stays as it is.
\<close>

definition settle ::
  "('r CacheItem \<Rightarrow> jsstring) \<Rightarrow> CacheConfig \<Rightarrow> bool \<Rightarrow> int \<Rightarrow> nat \<Rightarrow> Error + 'r
     \<Rightarrow> 'r ApiState \<Rightarrow> 'r ApiState" where
  "settle stringify config quotaOk now p outcome s =
     (if p < length (promises s) \<and> snd (promises s ! p) = Pending then
        (let vmid = fst (promises s ! p);
             s1 = (case outcome of
                     Inr resp \<Rightarrow>
                       s\<lparr>localStorage :=
                            cache_set stringify quotaOk config now (localStorage s)
                              (cacheKey vmid) resp\<rparr>
                   | Inl e \<Rightarrow> s);
             s2 = s1\<lparr>pendingRequests := (pendingRequests s1)(pendingKey vmid := None)\<rparr>
         in s2\<lparr>promises := (promises s2)
                  [p := (vmid, case outcome of
                                 Inr resp \<Rightarrow> Fulfilled \<lparr>response = resp, fromCache = False\<rparr>
                               | Inl e \<Rightarrow> RejectedWith e)]\<rparr>)
      else s)"

text \<open>
  The event loop runs one piece of code at a time, so an execution is a sequence of
  events: a call of \<^verbatim>\<open>getCommonFollowings\<close> at some time, or the settling of a
  pending request, with the time and whether the cache write fits the quota.
\<close>

datatype 'r event = Call nat bool int | Settle nat "Error + 'r" int bool

fun step ::
  "(jsstring \<Rightarrow> exn + 'r parsed) \<Rightarrow> ('r CacheItem \<Rightarrow> jsstring) \<Rightarrow> CacheConfig
     \<Rightarrow> 'r ApiState \<Rightarrow> 'r event \<Rightarrow> 'r ApiState" where
  "step parse stringify config s (Call vmid useCache now) =
     fst (getCommonFollowings parse now vmid useCache s)"
| "step parse stringify config s (Settle p outcome now quotaOk) =
     settle stringify config quotaOk now p outcome s"

definition run ::
  "(jsstring \<Rightarrow> exn + 'r parsed) \<Rightarrow> ('r CacheItem \<Rightarrow> jsstring) \<Rightarrow> CacheConfig
     \<Rightarrow> 'r event list \<Rightarrow> 'r ApiState \<Rightarrow> 'r ApiState" where
  "run parse stringify config es s = foldl (step parse stringify config) s es"

definition init :: "Storage \<Rightarrow> 'r ApiState" where
  "init ls = \<lparr>localStorage = ls, pendingRequests = Map.empty, promises = [], requested = []\<rparr>"

text \<open>
  A request for \<open>vmid\<close> is in flight when its promise is pending. The invariant ties the
  pending map to the promises in flight.
\<close>

definition in_flight :: "'r ApiState \<Rightarrow> nat \<Rightarrow> nat \<Rightarrow> bool" where
  "in_flight s p vmid = (p < length (promises s) \<and> promises s ! p = (vmid, Pending))"

definition dedup_inv :: "'r ApiState \<Rightarrow> bool" where
  "dedup_inv s =
     ((\<forall>k p. pendingRequests s k = Some p \<longrightarrow> (\<exists>v. k = pendingKey v \<and> in_flight s p v))
      \<and> (\<forall>p v. in_flight s p v \<longrightarrow> pendingRequests s (pendingKey v) = Some p))"

section \<open>Loading the follow list and the common followings (hook useGraphData)\<close>

text \<open>
  Of a \<^verbatim>\<open>FansItem\<close> the program reads the identifier, the name and the membership
  flag \<^verbatim>\<open>vip.vipStatus\<close>. A response carries the fields of
  \<^verbatim>\<open>BiliApiResponse\<close> and the payload \<^verbatim>\<open>data\<close> (here \<open>rdata\<close>), which a
  malformed response may lack, as it may lack the list inside (\<open>None\<close> then).
  \<^verbatim>\<open>CommonFollowingsResponse\<close> has the same fields. Identifiers are non-negative
  integers that JavaScript represents exactly and prints in plain decimal.
\<close>

record FansItem =
  mid :: nat
  uname :: jsstring
  vipStatus :: nat

record FansData =
  list :: "FansItem list option"
  total :: int

record FansResponse = BiliApiResponse +
  rdata :: "FansData option"

type_synonym CommonFollowingsResponse = FansResponse

text \<open>The parameters of \<^verbatim>\<open>getFollowingsList\<close>.\<close>

record GetFansListParams =
  vmid :: nat
  ps :: nat
  pn :: int

text \<open>
  What the loaders do to the outside is recorded as a list of effects: a page request, a
  warning about a skipped page, a progress notification (count and total) and a pacing
  sleep (milliseconds).
\<close>

datatype effect = Fetch int | Warn int | Info nat int | Sleep nat

text \<open>
  The paging block of \<^verbatim>\<open>loadAllData\<close>: page 1 first, then the loop over the pages
  2 to \<open>totalPages\<close>. \<^verbatim>\<open>getFollowingsList\<close> is the environment's answer to a
  request; an exception ends the block. A later page without a list is skipped with a
  warning.
\<close>

definition pageSize :: nat where
  "pageSize = 50"

function remainingPages ::
  "(GetFansListParams \<Rightarrow> exn + FansResponse) \<Rightarrow> nat \<Rightarrow> int \<Rightarrow> int \<Rightarrow> int
     \<Rightarrow> FansItem list \<Rightarrow> effect list \<Rightarrow> effect list \<times> (exn + FansItem list)" where
  "remainingPages getFollowingsList v tot totalPages page allFollowings tr =
     (if page \<le> totalPages then
        (case getFollowingsList \<lparr>vmid = v, ps = pageSize, pn = page\<rparr> of
           Inl e \<Rightarrow> (tr @ [Fetch page], Inl e)
         | Inr resp \<Rightarrow>
             (case (case rdata resp of None \<Rightarrow> None | Some d \<Rightarrow> list d) of
                Some l \<Rightarrow>
                  remainingPages getFollowingsList v tot totalPages (page + 1)
                    (allFollowings @ l)
                    (tr @ [Fetch page]
                       @ (if page mod 5 = 0 then [Info (length (allFollowings @ l)) tot] else []))
              | None \<Rightarrow>
                  remainingPages getFollowingsList v tot totalPages (page + 1)
                    allFollowings
                    (tr @ [Fetch page, Warn page]
                       @ (if page mod 5 = 0 then [Info (length allFollowings) tot] else []))))
      else (tr, Inr allFollowings))"
  by pat_completeness auto
termination
  by (relation "measure (\<lambda>(g, v, tot, totalPages, page, acc, tr). nat (totalPages + 1 - page))")
    auto

declare remainingPages.simps [simp del]

definition fetchAllFollowings ::
  "(GetFansListParams \<Rightarrow> exn + FansResponse) \<Rightarrow> nat
     \<Rightarrow> effect list \<times> (exn + FansItem list)" where
  "fetchAllFollowings getFollowingsList v =
     (case getFollowingsList \<lparr>vmid = v, ps = pageSize, pn = 1\<rparr> of
        Inl e \<Rightarrow> ([Fetch 1], Inl e)
      | Inr firstResponse \<Rightarrow>
          (case rdata firstResponse of
             None \<Rightarrow> ([Fetch 1], Inl TypeError)
           | Some d \<Rightarrow>
               (case list d of
                  None \<Rightarrow> ([Fetch 1], Inl TypeError)
                | Some l \<Rightarrow>
                    (let totalPages = \<lceil>real_of_int (total d) / real pageSize\<rceil>
                     in remainingPages getFollowingsList v (total d) totalPages 2 l
                          [Fetch 1]))))"

text \<open>
  \<^verbatim>\<open>loadCommonFollowingsBatch(mids)\<close>. \<open>loadOne\<close> is the async arrow function run
  for one identifier: its \<^verbatim>\<open>try\<close> block reads
  \<^verbatim>\<open>response.data.list.map(u => u.mid)\<close>, which throws when the payload or the
  list is missing, and its \<^verbatim>\<open>catch\<close> records the empty list. The tasks of a batch
  write entries for their own identifiers, so they are run in the order of the batch;
  were a task to reject, \<^verbatim>\<open>Promise.all\<close> would reject and the loader would throw.
\<close>

definition try_catch :: "exn + 'a \<Rightarrow> (exn \<Rightarrow> exn + 'a) \<Rightarrow> exn + 'a" where
  "try_catch body handler = (case body of Inl e \<Rightarrow> handler e | Inr v \<Rightarrow> Inr v)"

definition commonMidsOf :: "CommonFollowingsResponse \<Rightarrow> exn + nat list" where
  "commonMidsOf resp =
     (case rdata resp of
        None \<Rightarrow> Inl TypeError
      | Some d \<Rightarrow> (case list d of None \<Rightarrow> Inl TypeError | Some l \<Rightarrow> Inr (map mid l)))"

definition loadOne :: "(nat \<Rightarrow> exn + CommonFollowingsResponse) \<Rightarrow> nat \<Rightarrow> exn + nat list" where
  "loadOne getCF k =
     try_catch
       (case getCF k of Inl e \<Rightarrow> Inl e | Inr resp \<Rightarrow> commonMidsOf resp)
       (\<lambda>error. Inr [])"

fun runBatch ::
  "(nat \<Rightarrow> exn + CommonFollowingsResponse) \<Rightarrow> nat list \<Rightarrow> (nat \<rightharpoonup> nat list)
     \<Rightarrow> exn + (nat \<rightharpoonup> nat list)" where
  "runBatch getCF [] m = Inr m"
| "runBatch getCF (k # batch) m =
     (case loadOne getCF k of
        Inl e \<Rightarrow> Inl e
      | Inr commonMids \<Rightarrow> runBatch getCF batch (m(k \<mapsto> commonMids)))"

definition batchSize :: nat where
  "batchSize = 10"

function batchLoop ::
  "(nat \<Rightarrow> exn + CommonFollowingsResponse) \<Rightarrow> nat list \<Rightarrow> nat \<Rightarrow> (nat \<rightharpoonup> nat list)
     \<Rightarrow> effect list \<Rightarrow> effect list \<times> (exn + (nat \<rightharpoonup> nat list))" where
  "batchLoop getCF mids i m tr =
     (if i < length mids then
        (case runBatch getCF (take batchSize (drop i mids)) m of
           Inl e \<Rightarrow> (tr, Inl e)
         | Inr m' \<Rightarrow>
             batchLoop getCF mids (i + batchSize) m'
               (tr
                @ (if (i + batchSize) mod 50 = 0 \<or> i + batchSize \<ge> length mids
                   then [Info (min (i + batchSize) (length mids)) (int (length mids))] else [])
                @ (if i + batchSize < length mids then [Sleep 300] else [])))
      else (tr, Inr m))"
  by pat_completeness auto
termination
  by (relation "measure (\<lambda>(g, mids, i, m, tr). length mids - i)") (auto simp: batchSize_def)

declare batchLoop.simps [simp del]

definition loadCommonFollowingsBatch ::
  "(nat \<Rightarrow> exn + CommonFollowingsResponse) \<Rightarrow> nat list
     \<Rightarrow> effect list \<times> (exn + (nat \<rightharpoonup> nat list))" where
  "loadCommonFollowingsBatch getCF mids = batchLoop getCF mids 0 Map.empty []"

text \<open>The pacing sleeps among the effects, in order.\<close>

fun sleeps :: "effect list \<Rightarrow> nat list" where
  "sleeps [] = []"
| "sleeps (Sleep n # tr) = n # sleeps tr"
| "sleeps (e # tr) = sleeps tr"

text \<open>
  The relation loop of \<^verbatim>\<open>loadAllData\<close> in the component
  \<^verbatim>\<open>ReactForceGraph\<close>, which loads the identifiers one after the other and gets
  \<^verbatim>\<open>{response, fromCache}\<close> from \<^verbatim>\<open>getCommonFollowings\<close>. Recorded are \<^verbatim>\<open>user.following\<close> for every
  identifier, the links handed to \<^verbatim>\<open>addLinksToGraph\<close> and the effects. The sleep
  is the last statement of the \<^verbatim>\<open>try\<close> block, so a failed fetch is followed by no
  sleep. The pause flag is taken to be off and the bookkeeping of the loading state is
  left out.
\<close>

record RelationState =
  following :: "nat \<rightharpoonup> nat list"
  newLinks :: "(nat \<times> nat) list"
  trace :: "effect list"

definition relationsOf ::
  "CommonFollowingsResponse CommonFollowingsResult \<Rightarrow> exn + (nat list \<times> bool)" where
  "relationsOf result =
     (case commonMidsOf (response result) of
        Inl e \<Rightarrow> Inl e
      | Inr commonMids \<Rightarrow> Inr (commonMids, fromCache result))"

fun loadRelations ::
  "(nat \<Rightarrow> exn + CommonFollowingsResponse CommonFollowingsResult) \<Rightarrow> nat set \<Rightarrow> nat list
     \<Rightarrow> RelationState \<Rightarrow> RelationState" where
  "loadRelations getCF myFollowingSet [] st = st"
| "loadRelations getCF myFollowingSet (u # rest) st =
     loadRelations getCF myFollowingSet rest
       (case (case getCF u of Inl e \<Rightarrow> Inl e | Inr result \<Rightarrow> relationsOf result) of
          Inr (commonMids, cached) \<Rightarrow>
            st\<lparr>following := (following st)(u \<mapsto> commonMids),
               newLinks := newLinks st
                 @ map (\<lambda>targetId. (targetId, u))
                     (filter (\<lambda>targetId. targetId \<in> myFollowingSet) commonMids),
               trace := trace st @ [Sleep (if cached then 10 else 300)]\<rparr>
        | Inl e \<Rightarrow> st\<lparr>following := (following st)(u \<mapsto> [])\<rparr>)"

text \<open>
  The list recorded for an identifier: empty when the fetch or the reading of the response
  throws. \<open>pacing\<close> is the sleep that follows an identifier in the relation loop, if any.
\<close>

definition fetched :: "(nat \<Rightarrow> exn + CommonFollowingsResponse) \<Rightarrow> nat \<Rightarrow> nat list" where
  "fetched getCF k =
     (case getCF k of
        Inl e \<Rightarrow> []
      | Inr resp \<Rightarrow> (case commonMidsOf resp of Inl e \<Rightarrow> [] | Inr l \<Rightarrow> l))"

definition pacing ::
  "(nat \<Rightarrow> exn + CommonFollowingsResponse CommonFollowingsResult) \<Rightarrow> nat \<Rightarrow> nat option" where
  "pacing getCF u =
     (case getCF u of
        Inl e \<Rightarrow> None
      | Inr result \<Rightarrow>
          (case commonMidsOf (response result) of
             Inl e \<Rightarrow> None
           | Inr l \<Rightarrow> Some (if fromCache result then 10 else 300)))"

section \<open>Graph construction (hook useGraphTransform)\<close>

text \<open>
  A JavaScript \<^verbatim>\<open>Map\<close> iterates in insertion order: it is a list of entries.
  \<^verbatim>\<open>set\<close> replaces the value of a key that is there and appends a new key at the
  end.
\<close>

type_synonym ('k, 'v) jsmap = "('k \<times> 'v) list"

definition map_has :: "('k, 'v) jsmap \<Rightarrow> 'k \<Rightarrow> bool" where
  "map_has m k = (k \<in> fst ` set m)"

definition map_set :: "('k, 'v) jsmap \<Rightarrow> 'k \<Rightarrow> 'v \<Rightarrow> ('k, 'v) jsmap" where
  "map_set m k v =
     (if map_has m k then map (\<lambda>(k', v'). if k' = k then (k', v) else (k', v')) m
      else m @ [(k, v)])"

text \<open>
  The types of the graph (types.ts). The fields \<^verbatim>\<open>id\<close>, \<^verbatim>\<open>size\<close> and the
  \<^verbatim>\<open>color\<close> of a link are named \<open>node_id\<close>, \<open>node_size\<close> and \<open>link_color\<close>; an
  undefined link colour is \<open>None\<close>. Of the debug parameters the transformation reads
  three.
\<close>

record GraphNode =
  node_id :: jsstring
  label :: jsstring
  color :: jsstring
  node_size :: real

record GraphLink =
  source :: jsstring
  target :: jsstring
  link_color :: "jsstring option"

record DebugParams =
  nodeSizeMultiplier :: real
  nodeMaxSize :: real
  swapLinkDirection :: bool

record GraphStats =
  stats_total :: nat
  stats_connected :: nat
  stats_links :: nat

record GraphData =
  nodes :: "GraphNode list"
  links :: "GraphLink list"

record Transformed =
  graphData :: GraphData
  nodeDegreeMap :: "jsstring \<rightharpoonup> nat"
  stats :: GraphStats

definition NODE_COLOR_VIP :: jsstring where
  "NODE_COLOR_VIP = ascii ''#ff4080b2''"

definition NODE_COLOR_NORMAL :: jsstring where
  "NODE_COLOR_NORMAL = ascii ''#00e1ffb0''"

definition LINK_COLOR_BIDIRECTIONAL :: jsstring where
  "LINK_COLOR_BIDIRECTIONAL = ascii ''#FFD700''"

text \<open>
  Step 1 of the transformation: the nodes, one per identifier, the first occurrence in the
  follow list wins.
\<close>

definition addNode :: "(jsstring, GraphNode) jsmap \<Rightarrow> FansItem \<Rightarrow> (jsstring, GraphNode) jsmap" where
  "addNode uniqueNodesMap user =
     (let i = toString (mid user)
      in if \<not> map_has uniqueNodesMap i
         then map_set uniqueNodesMap i
                \<lparr>node_id = i, label = uname user,
                 color = (if vipStatus user \<noteq> 0 then NODE_COLOR_VIP else NODE_COLOR_NORMAL),
                 node_size = 1\<rparr>
         else uniqueNodesMap)"

text \<open>
  Step 2: the edges. The key of an edge is the text \<^verbatim>\<open>`${source}-${target}`\<close>.
  The accumulator holds \<^verbatim>\<open>edgeMap\<close> and \<^verbatim>\<open>linkSet\<close>. \<open>addEdge\<close> is the body
  of the inner \<^verbatim>\<open>forEach\<close> over the common followings of a node, \<open>addEdgesOf\<close>
  the body of the outer one over the nodes.
\<close>

definition linkKeyOf :: "jsstring \<Rightarrow> jsstring \<Rightarrow> jsstring" where
  "linkKeyOf src tgt = src @ ascii ''-'' @ tgt"

type_synonym edges = "(jsstring, jsstring \<times> jsstring) jsmap \<times> jsstring set"

definition addEdge :: "nat option set \<Rightarrow> GraphNode \<Rightarrow> edges \<Rightarrow> nat \<Rightarrow> edges" where
  "addEdge followingMidSet node acc commonMid =
     (case acc of (edgeMap, linkSet) \<Rightarrow>
        if Some commonMid \<in> followingMidSet then
          (let src = node_id node;
               tgt = toString commonMid;
               linkKey = linkKeyOf src tgt
           in if linkKey \<notin> linkSet
              then (map_set edgeMap linkKey (src, tgt), insert linkKey linkSet)
              else (edgeMap, linkSet))
        else (edgeMap, linkSet))"

definition addEdgesOf ::
  "(nat \<rightharpoonup> nat list) \<Rightarrow> nat option set \<Rightarrow> edges \<Rightarrow> GraphNode \<Rightarrow> edges" where
  "addEdgesOf commonFollowingsMap followingMidSet acc node =
     (case parseInt (node_id node) of
        None \<Rightarrow> acc
      | Some m \<Rightarrow>
          (case commonFollowingsMap m of
             None \<Rightarrow> acc
           | Some commonMids \<Rightarrow> foldl (addEdge followingMidSet node) acc commonMids))"

text \<open>
  The second pass marks both keys of a pair of opposite edges; the third pass builds the
  links, swapped when \<^verbatim>\<open>swapLinkDirection\<close> is set, gold when the key is marked.
\<close>

definition markBidirectional ::
  "(jsstring, jsstring \<times> jsstring) jsmap \<Rightarrow> jsstring set \<Rightarrow> jsstring \<times> jsstring \<times> jsstring
     \<Rightarrow> jsstring set" where
  "markBidirectional edgeMap bidirectionalSet entry =
     (case entry of (key, src, tgt) \<Rightarrow>
        (let reverseKey = linkKeyOf tgt src
         in if map_has edgeMap reverseKey
            then insert reverseKey (insert key bidirectionalSet)
            else bidirectionalSet))"

definition makeLink :: "bool \<Rightarrow> jsstring set \<Rightarrow> jsstring \<times> jsstring \<times> jsstring \<Rightarrow> GraphLink" where
  "makeLink swap bidirectionalSet entry =
     (case entry of (key, src, tgt) \<Rightarrow>
        (let isBidirectional = key \<in> bidirectionalSet
         in if swap
            then \<lparr>source = tgt, target = src,
                  link_color = (if isBidirectional then Some LINK_COLOR_BIDIRECTIONAL else None)\<rparr>
            else \<lparr>source = src, target = tgt,
                  link_color = (if isBidirectional then Some LINK_COLOR_BIDIRECTIONAL else None)\<rparr>))"

text \<open>
  Steps 3 and 4: the degree map counts both endpoints of every link
  (\<^verbatim>\<open>(nodeDegree.get(x) || 0) + 1\<close>); the size of a node is
  \<^verbatim>\<open>Math.min(Math.log(degree + 1) * nodeSizeMultiplier, nodeMaxSize)\<close>, over the
  reals, with \<^verbatim>\<open>nodeDegree.get(id) || 1\<close> for the degree.
\<close>

definition countLink :: "(jsstring \<rightharpoonup> nat) \<Rightarrow> GraphLink \<Rightarrow> (jsstring \<rightharpoonup> nat)" where
  "countLink nodeDegree l =
     (let d1 = nodeDegree(source l \<mapsto> (case nodeDegree (source l) of None \<Rightarrow> 0 | Some k \<Rightarrow> k) + 1)
      in d1(target l \<mapsto> (case d1 (target l) of None \<Rightarrow> 0 | Some k \<Rightarrow> k) + 1))"

definition sizeNode :: "DebugParams \<Rightarrow> (jsstring \<rightharpoonup> nat) \<Rightarrow> GraphNode \<Rightarrow> GraphNode" where
  "sizeNode debugParams nodeDegree node =
     (let degree = (case nodeDegree (node_id node) of
                      None \<Rightarrow> 1
                    | Some k \<Rightarrow> if k = 0 then 1 else k);
          baseSize = ln (real degree + 1) * nodeSizeMultiplier debugParams
      in node\<lparr>node_size := min baseSize (nodeMaxSize debugParams)\<rparr>)"

text \<open>
  The stages, named after the variables they compute, and the body of the
  \<^verbatim>\<open>useMemo\<close> callback of \<^verbatim>\<open>useGraphTransform\<close>: \<open>None\<close> is
  \<^verbatim>\<open>null\<close>. The result carries the graph data, the degree map and the statistics
  that the callback stores.
\<close>

definition allNodesOf :: "FansItem list \<Rightarrow> GraphNode list" where
  "allNodesOf followingsList = map snd (foldl addNode [] followingsList)"

definition edgeMapOf ::
  "GraphNode list \<Rightarrow> (nat \<rightharpoonup> nat list) \<Rightarrow> (jsstring, jsstring \<times> jsstring) jsmap" where
  "edgeMapOf allNodes commonFollowingsMap =
     (let followingMidSet = set (map (\<lambda>n. parseInt (node_id n)) allNodes)
      in fst (foldl (addEdgesOf commonFollowingsMap followingMidSet) ([], {}) allNodes))"

definition linksOf :: "bool \<Rightarrow> (jsstring, jsstring \<times> jsstring) jsmap \<Rightarrow> GraphLink list" where
  "linksOf swap edgeMap =
     (let bidirectionalSet = foldl (markBidirectional edgeMap) {} edgeMap
      in map (makeLink swap bidirectionalSet) edgeMap)"

definition connectedNodeIdsOf :: "GraphLink list \<Rightarrow> jsstring set" where
  "connectedNodeIdsOf ls = foldl (\<lambda>s l. insert (target l) (insert (source l) s)) {} ls"

definition nodeDegreeOf :: "GraphLink list \<Rightarrow> (jsstring \<rightharpoonup> nat)" where
  "nodeDegreeOf ls = foldl countLink Map.empty ls"

definition useGraphTransform ::
  "FansItem list \<Rightarrow> (nat \<rightharpoonup> nat list) \<Rightarrow> DebugParams \<Rightarrow> bool \<Rightarrow> Transformed option" where
  "useGraphTransform followingsList commonFollowingsMap debugParams dataLoaded =
     (if \<not> dataLoaded \<or> followingsList = [] then None
      else
        (let allNodes = allNodesOf followingsList;
             edgeMap = edgeMapOf allNodes commonFollowingsMap;
             ls = linksOf (swapLinkDirection debugParams) edgeMap;
             connectedNodeIds = connectedNodeIdsOf ls;
             filteredNodes = filter (\<lambda>node. node_id node \<in> connectedNodeIds) allNodes;
             nodeDegree = nodeDegreeOf ls
         in Some \<lparr>graphData = \<lparr>nodes = map (sizeNode debugParams nodeDegree) filteredNodes,
                                 links = ls\<rparr>,
                   nodeDegreeMap = nodeDegree,
                   stats = \<lparr>stats_total = length allNodes,
                            stats_connected = length filteredNodes,
                            stats_links = length ls\<rparr>\<rparr>))"

text \<open>
  Invariants of the two loops, used in the proofs: node keys are distinct decimal texts
  that agree with the node's identifier; \<^verbatim>\<open>linkSet\<close> holds the keys of
  \<^verbatim>\<open>edgeMap\<close>, and every edge is stored under the key of its endpoints, which are
  node identifiers.
\<close>

definition nodes_inv :: "(jsstring, GraphNode) jsmap \<Rightarrow> bool" where
  "nodes_inv m =
     (distinct (map fst m) \<and> (\<forall>(i, n) \<in> set m. node_id n = i \<and> (\<exists>a. i = toString a)))"

definition edges_inv :: "jsstring set \<Rightarrow> edges \<Rightarrow> bool" where
  "edges_inv ids acc =
     (case acc of (edgeMap, linkSet) \<Rightarrow>
        linkSet = fst ` set edgeMap
        \<and> (\<forall>(k, s, t) \<in> set edgeMap. k = linkKeyOf s t \<and> s \<in> ids \<and> t \<in> ids))"

text \<open>
  The degree of a node as the degree map holds it (0 for an identifier without an entry),
  and the number of link endpoints at an identifier.
\<close>

definition degreeOf :: "(jsstring \<rightharpoonup> nat) \<Rightarrow> jsstring \<Rightarrow> nat" where
  "degreeOf nodeDegree x = (case nodeDegree x of None \<Rightarrow> 0 | Some k \<Rightarrow> k)"

definition incident :: "GraphLink list \<Rightarrow> jsstring \<Rightarrow> nat" where
  "incident ls x = length (filter (\<lambda>l. source l = x) ls) + length (filter (\<lambda>l. target l = x) ls)"

section \<open>Properties\<close>

subsection \<open>Decimal texts\<close>

lemma toString_digits: "\<forall>c \<in> set (toString n). isDigit c"
proof (induction n rule: toString.induct)
  case (1 n)
  show ?case
  proof (cases "n < 10")
    case True
    then show ?thesis by (subst toString.simps) (simp add: isDigit_def)
  next
    case False
    have "n mod 10 < 10" by simp
    then have "isDigit (48 + n mod 10)" unfolding isDigit_def by linarith
    with 1 False show ?thesis by (subst toString.simps) simp
  qed
qed

lemma toString_nonempty: "toString n \<noteq> []"
  by (subst toString.simps) simp

lemma foldl_toString:
  "foldl (\<lambda>a c. 10 * a + (c - 48)) 0 (toString n) = n"
proof (induction n rule: toString.induct)
  case (1 n)
  show ?case
  proof (cases "n < 10")
    case True
    then show ?thesis by (subst toString.simps) simp
  next
    case False
    with 1 show ?thesis by (subst toString.simps) simp
  qed
qed

lemma parseInt_toString: "parseInt (toString n) = Some n"
proof -
  have tw: "takeWhile isDigit (toString n) = toString n"
    using toString_digits by (simp add: takeWhile_eq_all_conv)
  show ?thesis
    unfolding parseInt_def tw by (simp add: toString_nonempty foldl_toString)
qed

lemma toString_inj: "toString a = toString b \<longleftrightarrow> a = b"
  by (metis parseInt_toString option.inject)


subsection \<open>Backoff delay\<close>

lemma backoff_closed_form:
  "calculateBackoffDelay rnd n cfg =
     min (maxDelayMs cfg) (baseDelayMs cfg * 2 ^ n * (1 + 0.3 * rnd))"
  by (simp add: calculateBackoffDelay_def Let_def min.commute algebra_simps)

text \<open>
  C2, as stated, fails: with \<open>baseDelayMs = 1000\<close>, \<open>maxDelayMs = 10000\<close> and
  attempt 4 the uncapped delay is at least 16000, the code caps it to 10000, and 10000
  lies below the claimed lower bound \<open>baseDelayMs * 2 ^ 4\<close>.
\<close>

theorem C2_backoff_lower_bound_counterexample:
  "calculateBackoffDelay 0 4 \<lparr>maxRetries = 5, baseDelayMs = 1000, maxDelayMs = 10000\<rparr> = 10000
   \<and> \<not> (baseDelayMs \<lparr>maxRetries = 5, baseDelayMs = 1000, maxDelayMs = 10000\<rparr> * 2 ^ 4
          \<le> calculateBackoffDelay 0 4 \<lparr>maxRetries = 5, baseDelayMs = 1000, maxDelayMs = 10000\<rparr>)"
  by (simp add: calculateBackoffDelay_def Let_def)

text \<open>
  C2, amended: for a random draw \<open>0 \<le> rnd < 1\<close> the delay of attempt \<open>n\<close> equals
  \<open>min maxDelay (baseDelay * 2 ^ n * (1 + j))\<close> for the jitter fraction
  \<open>j = 0.3 * rnd\<close>, which lies in \<open>[0, 0.3)\<close>. For a non-negative base delay it lies
  between \<open>min maxDelay (baseDelay * 2 ^ n)\<close> and
  \<open>min maxDelay (baseDelay * 2 ^ n * 1.3)\<close>; the lower bound \<open>baseDelay * 2 ^ n\<close> of
  the claim holds whenever the cap does not cut below it, that is when
  \<open>baseDelay * 2 ^ n \<le> maxDelay\<close>.
\<close>

theorem C2_backoff_bounds:
  assumes "0 \<le> rnd" and "rnd < 1" and "0 \<le> baseDelayMs cfg"
  shows "calculateBackoffDelay rnd n cfg
           = min (maxDelayMs cfg) (baseDelayMs cfg * 2 ^ n * (1 + 0.3 * rnd))
         \<and> 0 \<le> 0.3 * rnd \<and> 0.3 * rnd < 0.3
         \<and> min (maxDelayMs cfg) (baseDelayMs cfg * 2 ^ n) \<le> calculateBackoffDelay rnd n cfg
         \<and> calculateBackoffDelay rnd n cfg \<le> min (maxDelayMs cfg) (baseDelayMs cfg * 2 ^ n * 1.3)
         \<and> (baseDelayMs cfg * 2 ^ n \<le> maxDelayMs cfg
              \<longrightarrow> baseDelayMs cfg * 2 ^ n \<le> calculateBackoffDelay rnd n cfg)"
proof -
  let ?e = "baseDelayMs cfg * 2 ^ n"
  have e0: "0 \<le> ?e" using assms(3) by simp
  have lo: "?e \<le> ?e * (1 + 0.3 * rnd)"
    using e0 assms(1) by (simp add: mult_le_cancel_left1)
  have hi: "?e * (1 + 0.3 * rnd) \<le> ?e * 1.3"
    using e0 assms(2) by (intro mult_left_mono) simp_all
  have cf: "calculateBackoffDelay rnd n cfg = min (maxDelayMs cfg) (?e * (1 + 0.3 * rnd))"
    by (rule backoff_closed_form)
  show ?thesis
    unfolding cf using lo hi assms(1,2) by (auto simp: min_def)
qed

theorem C2_backoff_bounds_witness:
  "calculateBackoffDelay (1/2) 2 DEFAULT_RETRY_CONFIG = 4600
   \<and> baseDelayMs DEFAULT_RETRY_CONFIG * 2 ^ 2 \<le> calculateBackoffDelay (1/2) 2 DEFAULT_RETRY_CONFIG
   \<and> calculateBackoffDelay (1/2) 2 DEFAULT_RETRY_CONFIG
       \<le> min (maxDelayMs DEFAULT_RETRY_CONFIG) (baseDelayMs DEFAULT_RETRY_CONFIG * 2 ^ 2 * 1.3)"
  using C2_backoff_bounds [of "1/2" DEFAULT_RETRY_CONFIG 2]
  by (simp add: DEFAULT_RETRY_CONFIG_def)

subsection \<open>Retry classification\<close>

lemma includes_append_skip:
  "pat \<noteq> [] \<Longrightarrow> hd pat \<notin> set pre \<Longrightarrow> js_includes (pre @ s) pat = js_includes s pat"
proof (induction pre)
  case Nil
  then show ?case by simp
next
  case (Cons a pre)
  then show ?case by (cases pat) auto
qed

lemma http_prefix_chars:
  assumes "c \<in> set (ascii ''HTTP '' @ [38169, 35823] @ ascii '': '' @ toString st @ ascii '' '')"
  shows "c \<le> 84 \<or> c = 38169 \<or> c = 35823"
proof -
  have "isDigit d \<Longrightarrow> d \<le> 84" for d by (simp add: isDigit_def)
  with toString_digits [of st] have "\<forall>d \<in> set (toString st). d \<le> 84" by blast
  with assms show ?thesis by (auto simp: ascii_def)
qed

lemma includes_http_error_message:
  assumes "pat \<noteq> []" and "84 < hd pat" and "hd pat \<noteq> 38169" and "hd pat \<noteq> 35823"
  shows "js_includes (http_error_message st stx) pat = js_includes stx pat"
proof -
  let ?pre = "ascii ''HTTP '' @ [38169, 35823] @ ascii '': '' @ toString st @ ascii '' ''"
  have "hd pat \<notin> set ?pre"
    using http_prefix_chars [of "hd pat" st] assms by auto
  then have "js_includes (?pre @ stx) pat = js_includes stx pat"
    using assms(1) by (rule includes_append_skip [rotated])
  then show ?thesis by (simp add: http_error_message_def)
qed

lemma fixed_messages_not_markers:
  "\<not> js_includes MSG_PARSE_FAILED MSG_NETWORK_FAILED"
  "\<not> js_includes MSG_PARSE_FAILED MSG_TIMEOUT"
  "\<not> js_includes MSG_REQUEST_FAILED MSG_NETWORK_FAILED"
  "\<not> js_includes MSG_REQUEST_FAILED MSG_TIMEOUT"
  "js_includes MSG_NETWORK_FAILED MSG_NETWORK_FAILED"
  "js_includes MSG_TIMEOUT MSG_TIMEOUT"
  "MSG_NETWORK_FAILED \<noteq> []"
  "MSG_TIMEOUT \<noteq> []"
  by (simp_all add: MSG_PARSE_FAILED_def MSG_NETWORK_FAILED_def MSG_TIMEOUT_def
        MSG_REQUEST_FAILED_def)

lemma risk_control_status:
  assumes "executeRequest parse (OnLoad st stx body) = Inl err"
    and "200 \<le> st" and "st < 300" and "parse body = Some d" and "code d = - 412"
  shows "err = Error MSG_RISK_CONTROL (Some 429)"
  using assms by (auto simp: executeRequest_def)

text \<open>
  C1, as stated, fails at two inputs. A response with HTTP status 412 whose body carries
  application code -412 is rejected by the status guard before the body is read: the error
  keeps status code 412 and is not retryable, so -412 is not mapped "regardless of the
  transport status". A 2xx response with application code -1 whose server-supplied message
  is the text of the timeout message is classified retryable, although it is a failure
  with a non-zero application code.
\<close>

theorem C1_classification_counterexample:
  "executeRequest (\<lambda>_. Some \<lparr>code = - 412, resp_message = []\<rparr>) (OnLoad 412 [] [])
     = Inl (Error (http_error_message 412 []) (Some 412))
   \<and> \<not> isRetryableError (Error (http_error_message 412 []) (Some 412)) (Some 412)
   \<and> executeRequest (\<lambda>_. Some \<lparr>code = - 1, resp_message = MSG_TIMEOUT\<rparr>) (OnLoad 200 [] [])
     = Inl (Error MSG_TIMEOUT None)
   \<and> isRetryableError (Error MSG_TIMEOUT None) None"
proof -
  have "\<not> js_includes (http_error_message 412 []) MSG_NETWORK_FAILED"
    by (subst includes_http_error_message) (simp_all add: MSG_NETWORK_FAILED_def)
  moreover have "\<not> js_includes (http_error_message 412 []) MSG_TIMEOUT"
    by (subst includes_http_error_message) (simp_all add: MSG_TIMEOUT_def)
  ultimately show ?thesis
    by (simp add: executeRequest_def isRetryableError_def fixed_messages_not_markers)
qed

lemma failure_classified:
  assumes "executeRequest parse ev = Inl err"
  shows "isRetryableError err (statusCode err) =
           (case ev of
              OnError \<Rightarrow> True
            | OnTimeout \<Rightarrow> True
            | OnLoad st stx body \<Rightarrow>
                if st < 200 \<or> 300 \<le> st
                then st = 429 \<or> 500 \<le> st
                     \<or> js_includes stx MSG_NETWORK_FAILED \<or> js_includes stx MSG_TIMEOUT
                else (case parse body of
                        None \<Rightarrow> False
                      | Some d \<Rightarrow> code d = - 412
                          \<or> js_includes (resp_message d) MSG_NETWORK_FAILED
                          \<or> js_includes (resp_message d) MSG_TIMEOUT))"
proof (cases ev)
  case (OnLoad st stx body)
  show ?thesis
  proof (cases "st < 200 \<or> 300 \<le> st")
    case True
    have n: "js_includes (http_error_message st stx) MSG_NETWORK_FAILED
               = js_includes stx MSG_NETWORK_FAILED"
      by (rule includes_http_error_message) (simp_all add: MSG_NETWORK_FAILED_def)
    have t: "js_includes (http_error_message st stx) MSG_TIMEOUT
               = js_includes stx MSG_TIMEOUT"
      by (rule includes_http_error_message) (simp_all add: MSG_TIMEOUT_def)
    from True assms OnLoad have "err = Error (http_error_message st stx) (Some st)"
      by (auto simp: executeRequest_def)
    with True OnLoad n t show ?thesis
      by (auto simp: isRetryableError_def)
  next
    case False
    show ?thesis
    proof (cases "parse body")
      case None
      with False assms OnLoad have "err = Error MSG_PARSE_FAILED None"
        by (auto simp: executeRequest_def)
      with False OnLoad None show ?thesis
        by (simp add: isRetryableError_def fixed_messages_not_markers)
    next
      case (Some d)
      with False assms OnLoad show ?thesis
        by (auto simp: executeRequest_def isRetryableError_def fixed_messages_not_markers
            split: if_splits)
    qed
  qed
next
  case OnError
  with assms show ?thesis
    by (auto simp: executeRequest_def isRetryableError_def fixed_messages_not_markers)
next
  case OnTimeout
  with assms show ?thesis
    by (auto simp: executeRequest_def isRetryableError_def fixed_messages_not_markers)
qed

text \<open>
  C1, amended: for every failed attempt (\<open>executeRequest\<close> rejects with \<open>err\<close>) the
  classification that \<^verbatim>\<open>request\<close> computes,
  \<open>isRetryableError err (statusCode err)\<close>, is retryable exactly in these cases: the
  transport failed or timed out; the HTTP status lies outside 200..299 and is 429 or at
  least 500; the status is 2xx and the application code is -412 (the error then carries
  status code 429); or the server-supplied text (the status text of a non-2xx response,
  the message of a non-zero application code) contains the network-failure or timeout
  message. A JSON parse failure is never retryable, and an application code inside a
  non-2xx response is not looked at.
\<close>

theorem C1_retry_classification:
  assumes "executeRequest parse ev = Inl err"
  shows "(isRetryableError err (statusCode err) =
           (case ev of
              OnError \<Rightarrow> True
            | OnTimeout \<Rightarrow> True
            | OnLoad st stx body \<Rightarrow>
                if st < 200 \<or> 300 \<le> st
                then st = 429 \<or> 500 \<le> st
                     \<or> js_includes stx MSG_NETWORK_FAILED \<or> js_includes stx MSG_TIMEOUT
                else (case parse body of
                        None \<Rightarrow> False
                      | Some d \<Rightarrow> code d = - 412
                          \<or> js_includes (resp_message d) MSG_NETWORK_FAILED
                          \<or> js_includes (resp_message d) MSG_TIMEOUT)))
         \<and> (\<forall>st stx body d. ev = OnLoad st stx body \<and> 200 \<le> st \<and> st < 300
                \<and> parse body = Some d \<and> code d = - 412 \<longrightarrow> statusCode err = Some 429)"
proof
  show "\<forall>st stx body d. ev = OnLoad st stx body \<and> 200 \<le> st \<and> st < 300
          \<and> parse body = Some d \<and> code d = - 412 \<longrightarrow> statusCode err = Some 429"
    using assms risk_control_status by fastforce
qed (rule failure_classified [OF assms])

theorem C1_retry_classification_witness:
  "isRetryableError (Error MSG_RISK_CONTROL (Some 429)) (Some 429)
   \<and> \<not> isRetryableError (Error MSG_PARSE_FAILED None) None
   \<and> isRetryableError (Error MSG_NETWORK_FAILED None) None"
proof -
  let ?p = "\<lambda>t::jsstring. if t = [] then None
                         else Some \<lparr>code = - 412, resp_message = []\<rparr>"
  have a: "executeRequest ?p (OnLoad 200 [] [48]) = Inl (Error MSG_RISK_CONTROL (Some 429))"
    by (simp add: executeRequest_def)
  have b: "executeRequest ?p (OnLoad 200 [] []) = Inl (Error MSG_PARSE_FAILED None)"
    by (simp add: executeRequest_def)
  have c: "executeRequest ?p OnError = Inl (Error MSG_NETWORK_FAILED None)"
    by (simp add: executeRequest_def)
  show ?thesis
    using C1_retry_classification [OF a] C1_retry_classification [OF b]
      C1_retry_classification [OF c]
    by simp
qed

subsection \<open>CacheManager\<close>

lemma cache_get_absent:
  "ls (prefix @ k) = None \<Longrightarrow> cache_get parse now ls k = (ls, Inr None)"
  by (simp add: cache_get_def cache_get_body_def)

lemma cache_get_expired:
  assumes "ls (prefix @ k) = Some text" and "text \<noteq> []"
    and "parse text = Inr (JItem item)" and "expiry item < now"
  shows "cache_get parse now ls k = (ls((prefix @ k) := None), Inr None)"
  using assms by (simp add: cache_get_def cache_get_body_def cache_remove_def removeItem_def)

lemma cache_get_fresh:
  assumes "ls (prefix @ k) = Some text" and "text \<noteq> []"
    and "parse text = Inr (JItem item)" and "now \<le> expiry item"
  shows "cache_get parse now ls k = (ls, Inr (Some (data item)))"
  using assms by (simp add: cache_get_def cache_get_body_def)

lemma cache_get_unparsable:
  assumes "ls (prefix @ k) = Some text" and "parse text = Inl e"
  shows "cache_get parse now ls k = (ls, Inr None)"
  using assms by (simp add: cache_get_def cache_get_body_def)

lemma cache_get_returns: "\<exists>ls' v. cache_get parse now ls k = (ls', Inr v)"
  by (auto simp: cache_get_def split: prod.splits sum.splits)

text \<open>
  C4: when the text stored under the namespaced key of \<open>k\<close> parses to an entry whose
  expiry timestamp is strictly before the current time, \<open>get k\<close> returns \<open>null\<close> and
  removes the entry from the storage; a further \<open>get k\<close>, at any time, returns
  \<open>null\<close> again and leaves the storage without the entry.
\<close>

theorem C4_expired_entry_is_evicted:
  assumes "ls (prefix @ k) = Some text" and "text \<noteq> []"
    and "parse text = Inr (JItem item)" and "expiry item < now"
  shows "cache_get parse now ls k = (ls((prefix @ k) := None), Inr None)
         \<and> cache_get parse now' (ls((prefix @ k) := None)) k
             = (ls((prefix @ k) := None), Inr None)"
  using assms by (simp add: cache_get_expired cache_get_absent)

theorem C4_expired_entry_is_evicted_witness:
  "cache_get (\<lambda>t. Inr (JItem \<lparr>data = True, expiry = 100\<rparr>)) 101 [prefix @ [107] \<mapsto> [123, 125]] [107]
     = (([prefix @ [107] \<mapsto> [123, 125]])((prefix @ [107]) := None), Inr None)
   \<and> cache_get (\<lambda>t. Inr (JItem \<lparr>data = True, expiry = 100\<rparr>)) 5
        (([prefix @ [107] \<mapsto> [123, 125]])((prefix @ [107]) := None)) [107]
     = (([prefix @ [107] \<mapsto> [123, 125]])((prefix @ [107]) := None), Inr None)"
  using C4_expired_entry_is_evicted
    [of "[prefix @ [107] \<mapsto> [123, 125]]" "[107]" "[123, 125]"
        "\<lambda>t. Inr (JItem \<lparr>data = True, expiry = 100\<rparr>)" "\<lparr>data = True, expiry = 100\<rparr>" 101 5]
  by simp

text \<open>
  C10: \<open>get\<close> never throws, whatever the storage holds and whatever \<^verbatim>\<open>JSON.parse\<close>
  does: it always returns a value. When no text is stored under the namespaced key, and
  when the stored text makes \<^verbatim>\<open>JSON.parse\<close> throw, the value is \<open>null\<close> and the
  storage is left as it was.
\<close>

theorem C10_get_never_throws:
  "(\<exists>ls' v. cache_get parse now ls k = (ls', Inr v))
   \<and> (ls (prefix @ k) = None \<longrightarrow> cache_get parse now ls k = (ls, Inr None))
   \<and> (\<forall>text e. ls (prefix @ k) = Some text \<and> parse text = Inl e
         \<longrightarrow> cache_get parse now ls k = (ls, Inr None))"
  using cache_get_returns cache_get_absent cache_get_unparsable by blast

theorem C10_get_never_throws_witness:
  "cache_get (\<lambda>t. Inl SyntaxError :: exn + bool parsed) 0 [prefix @ [107] \<mapsto> [123]] [107]
     = ([prefix @ [107] \<mapsto> [123]], Inr None)
   \<and> cache_get (\<lambda>t. Inl SyntaxError :: exn + bool parsed) 0 Map.empty [107]
     = (Map.empty, Inr None)"
  using C10_get_never_throws
      [of "\<lambda>t. Inl SyntaxError :: exn + bool parsed" 0 "[prefix @ [107] \<mapsto> [123]]" "[107]"]
    C10_get_never_throws [of "\<lambda>t. Inl SyntaxError :: exn + bool parsed" 0 Map.empty "[107]"]
  by simp

subsection \<open>Request deduplication\<close>

lemma pendingKey_inj [simp]: "pendingKey a = pendingKey b \<longleftrightarrow> a = b"
  by (simp add: pendingKey_def toString_inj)

lemma getCommonFollowings_cases:
  obtains
    (hit) ls c where
      "getCommonFollowings parse now v uc s
         = (s\<lparr>localStorage := ls\<rparr>, Immediately \<lparr>response = c, fromCache = True\<rparr>)"
  | (shared) ls p where
      "pendingRequests s (pendingKey v) = Some p"
      "getCommonFollowings parse now v uc s = (s\<lparr>localStorage := ls\<rparr>, Awaiting p)"
  | (fresh) ls where
      "pendingRequests s (pendingKey v) = None"
      "getCommonFollowings parse now v uc s
         = (s\<lparr>localStorage := ls,
               promises := promises s @ [(v, Pending)],
               requested := requested s @ [v],
               pendingRequests := (pendingRequests s)(pendingKey v \<mapsto> length (promises s))\<rparr>,
            Awaiting (length (promises s)))"
proof -
  obtain ls cached where lc:
    "(if uc then cache_get parse now (localStorage s) (cacheKey v)
      else (localStorage s, Inr None)) = (ls, Inr cached)"
    using cache_get_returns [of parse now "localStorage s" "cacheKey v"] by (cases uc) auto
  show thesis
  proof (cases cached)
    case (Some c)
    with lc have "getCommonFollowings parse now v uc s
         = (s\<lparr>localStorage := ls\<rparr>, Immediately \<lparr>response = c, fromCache = True\<rparr>)"
      by (simp add: getCommonFollowings_def)
    then show thesis by (rule hit)
  next
    case None
    show thesis
    proof (cases "pendingRequests s (pendingKey v)")
      case (Some p)
      with lc None have "getCommonFollowings parse now v uc s = (s\<lparr>localStorage := ls\<rparr>, Awaiting p)"
        by (simp add: getCommonFollowings_def)
      with Some show thesis by (rule shared)
    next
      case n: None
      with lc None have "getCommonFollowings parse now v uc s
         = (s\<lparr>localStorage := ls,
               promises := promises s @ [(v, Pending)],
               requested := requested s @ [v],
               pendingRequests := (pendingRequests s)(pendingKey v \<mapsto> length (promises s))\<rparr>,
            Awaiting (length (promises s)))"
        by (simp add: getCommonFollowings_def Let_def)
      with n show thesis by (rule fresh)
    qed
  qed
qed

lemma inv_init: "dedup_inv (init ls)"
  by (simp add: dedup_inv_def init_def in_flight_def)

lemma inv_storage [simp]: "dedup_inv (s\<lparr>localStorage := ls\<rparr>) = dedup_inv s"
  by (simp add: dedup_inv_def in_flight_def)

lemma inv_call:
  assumes "dedup_inv s"
  shows "dedup_inv (fst (getCommonFollowings parse now v uc s))"
proof (cases rule: getCommonFollowings_cases [of parse now v uc s])
  case (hit ls c)
  with assms show ?thesis by simp
next
  case (shared ls p)
  with assms show ?thesis by simp
next
  case (fresh ls)
  let ?n = "length (promises s)"
  have none: "\<not> in_flight s p v" for p
    using assms fresh(1) by (auto simp: dedup_inv_def)
  have "dedup_inv (s\<lparr>localStorage := ls,
               promises := promises s @ [(v, Pending)],
               requested := requested s @ [v],
               pendingRequests := (pendingRequests s)(pendingKey v \<mapsto> ?n)\<rparr>)"
    unfolding dedup_inv_def
  proof (intro conjI allI impI)
    fix k p
    assume "pendingRequests (s\<lparr>localStorage := ls,
               promises := promises s @ [(v, Pending)],
               requested := requested s @ [v],
               pendingRequests := (pendingRequests s)(pendingKey v \<mapsto> ?n)\<rparr>) k = Some p"
    then have kp: "((pendingRequests s)(pendingKey v \<mapsto> ?n)) k = Some p" by simp
    show "\<exists>w. k = pendingKey w \<and> in_flight (s\<lparr>localStorage := ls,
               promises := promises s @ [(v, Pending)],
               requested := requested s @ [v],
               pendingRequests := (pendingRequests s)(pendingKey v \<mapsto> ?n)\<rparr>) p w"
    proof (cases "k = pendingKey v")
      case True
      with kp have "p = ?n" by simp
      with True show ?thesis by (auto simp: in_flight_def)
    next
      case False
      with kp have "pendingRequests s k = Some p" by simp
      with assms obtain w where "k = pendingKey w" "in_flight s p w"
        by (auto simp: dedup_inv_def)
      then show ?thesis by (auto simp: in_flight_def nth_append)
    qed
  next
    fix p w
    assume "in_flight (s\<lparr>localStorage := ls,
               promises := promises s @ [(v, Pending)],
               requested := requested s @ [v],
               pendingRequests := (pendingRequests s)(pendingKey v \<mapsto> ?n)\<rparr>) p w"
    then have pw: "p < Suc ?n" "(promises s @ [(v, Pending)]) ! p = (w, Pending)"
      by (auto simp: in_flight_def)
    show "pendingRequests (s\<lparr>localStorage := ls,
               promises := promises s @ [(v, Pending)],
               requested := requested s @ [v],
               pendingRequests := (pendingRequests s)(pendingKey v \<mapsto> ?n)\<rparr>) (pendingKey w) = Some p"
    proof (cases "p < ?n")
      case True
      with pw have f: "in_flight s p w" by (simp add: in_flight_def nth_append)
      with none have "w \<noteq> v" by auto
      moreover from f assms have "pendingRequests s (pendingKey w) = Some p"
        by (auto simp: dedup_inv_def)
      ultimately show ?thesis by simp
    next
      case False
      with pw have "p = ?n" by simp
      with pw have "w = v" by simp
      with \<open>p = ?n\<close> show ?thesis by simp
    qed
  qed
  with fresh show ?thesis by simp
qed

lemma settle_eq:
  assumes "in_flight s p v"
  shows "settle stringify config quotaOk now p outcome s
      = s\<lparr>localStorage :=
             (case outcome of
                Inr resp \<Rightarrow> cache_set stringify quotaOk config now (localStorage s) (cacheKey v) resp
              | Inl e \<Rightarrow> localStorage s),
           pendingRequests := (pendingRequests s)(pendingKey v := None),
           promises := (promises s)
             [p := (v, case outcome of
                         Inr resp \<Rightarrow> Fulfilled \<lparr>response = resp, fromCache = False\<rparr>
                       | Inl e \<Rightarrow> RejectedWith e)]\<rparr>"
  using assms by (cases outcome; cases s) (simp_all add: settle_def in_flight_def Let_def)

lemma inv_settle:
  assumes "dedup_inv s"
  shows "dedup_inv (settle stringify config quotaOk now p outcome s)"
proof (cases "p < length (promises s) \<and> snd (promises s ! p) = Pending")
  case False
  with assms show ?thesis by (auto simp: settle_def)
next
  case True
  define v where "v = fst (promises s ! p)"
  define st where "st = (case outcome of
                                 Inr resp \<Rightarrow> Fulfilled \<lparr>response = resp, fromCache = False\<rparr>
                               | Inl e \<Rightarrow> RejectedWith e)"
  have st: "st \<noteq> Pending" by (simp add: st_def split: sum.splits)
  from True have fl: "in_flight s p v"
    by (simp add: in_flight_def v_def prod_eq_iff)
  obtain ls where eq: "settle stringify config quotaOk now p outcome s
      = s\<lparr>localStorage := ls, pendingRequests := (pendingRequests s)(pendingKey v := None),
           promises := (promises s)[p := (v, st)]\<rparr>"
    using settle_eq [OF fl] unfolding st_def by blast
  have "dedup_inv (s\<lparr>localStorage := ls, pendingRequests := (pendingRequests s)(pendingKey v := None),
           promises := (promises s)[p := (v, st)]\<rparr>)"
    unfolding dedup_inv_def
  proof (intro conjI allI impI)
    fix k q
    assume "pendingRequests (s\<lparr>localStorage := ls, pendingRequests := (pendingRequests s)(pendingKey v := None),
           promises := (promises s)[p := (v, st)]\<rparr>) k = Some q"
    then have k: "k \<noteq> pendingKey v" "pendingRequests s k = Some q"
      by (auto split: if_splits)
    with assms obtain w where w: "k = pendingKey w" "in_flight s q w"
      by (auto simp: dedup_inv_def)
    with k have "w \<noteq> v" by auto
    with w fl have "q \<noteq> p" by (auto simp: in_flight_def)
    with w show "\<exists>w. k = pendingKey w \<and> in_flight (s\<lparr>localStorage := ls, pendingRequests := (pendingRequests s)(pendingKey v := None),
           promises := (promises s)[p := (v, st)]\<rparr>) q w"
      by (auto simp: in_flight_def)
  next
    fix q w
    assume "in_flight (s\<lparr>localStorage := ls, pendingRequests := (pendingRequests s)(pendingKey v := None),
           promises := (promises s)[p := (v, st)]\<rparr>) q w"
    then have q: "q < length (promises s)" "(promises s)[p := (v, st)] ! q = (w, Pending)"
      by (auto simp: in_flight_def)
    with st have qp: "q \<noteq> p" by (auto simp: nth_list_update)
    with q have f: "in_flight s q w" by (simp add: in_flight_def)
    with assms have pq: "pendingRequests s (pendingKey w) = Some q" by (auto simp: dedup_inv_def)
    from fl assms have "pendingRequests s (pendingKey v) = Some p" by (auto simp: dedup_inv_def)
    with pq qp have "w \<noteq> v" by auto
    with pq show "pendingRequests (s\<lparr>localStorage := ls, pendingRequests := (pendingRequests s)(pendingKey v := None),
           promises := (promises s)[p := (v, st)]\<rparr>) (pendingKey w) = Some q"
      by simp
  qed
  with eq show ?thesis by simp
qed

lemma inv_step: "dedup_inv s \<Longrightarrow> dedup_inv (step parse stringify config s e)"
  by (cases e) (simp_all add: inv_call inv_settle)

lemma inv_run: "dedup_inv s \<Longrightarrow> dedup_inv (run parse stringify config es s)"
  unfolding run_def by (induction es arbitrary: s) (simp_all add: inv_step)


lemma in_flight_unique:
  assumes "dedup_inv s" and "in_flight s p v" and "in_flight s q v"
  shows "p = q"
proof -
  from assms(1,2) have "pendingRequests s (pendingKey v) = Some p"
    unfolding dedup_inv_def by blast
  moreover from assms(1,3) have "pendingRequests s (pendingKey v) = Some q"
    unfolding dedup_inv_def by blast
  ultimately show ?thesis by simp
qed

lemma call_while_in_flight:
  assumes "dedup_inv s" and "in_flight s p v"
    and "getCommonFollowings parse now v uc s = (s', r)" and "\<forall>c. r \<noteq> Immediately c"
  shows "r = Awaiting p \<and> requested s' = requested s \<and> promises s' = promises s"
proof -
  from assms(1,2) have pe: "pendingRequests s (pendingKey v) = Some p"
    by (auto simp: dedup_inv_def)
  show ?thesis
  proof (cases rule: getCommonFollowings_cases [of parse now v uc s])
    case (hit ls c)
    with assms(3,4) show ?thesis by auto
  next
    case (shared ls q)
    with assms(3) pe show ?thesis by auto
  next
    case (fresh ls)
    with pe show ?thesis by simp
  qed
qed

lemma call_when_idle:
  assumes "dedup_inv s" and "\<forall>p. \<not> in_flight s p v"
    and "getCommonFollowings parse now v uc s = (s', r)" and "\<forall>c. r \<noteq> Immediately c"
  shows "r = Awaiting (length (promises s)) \<and> requested s' = requested s @ [v]
         \<and> in_flight s' (length (promises s)) v"
proof -
  have pe: "pendingRequests s (pendingKey v) = None"
  proof (cases "pendingRequests s (pendingKey v)")
    case None
    then show ?thesis .
  next
    case (Some a)
    with assms(1) obtain w where "pendingKey v = pendingKey w" "in_flight s a w"
      unfolding dedup_inv_def by blast
    with assms(2) show ?thesis by simp
  qed
  show ?thesis
  proof (cases rule: getCommonFollowings_cases [of parse now v uc s])
    case (hit ls c)
    with assms(3,4) show ?thesis by auto
  next
    case (shared ls q)
    with pe show ?thesis by simp
  next
    case (fresh ls)
    with assms(3) show ?thesis by (auto simp: in_flight_def)
  qed
qed

lemma settle_removes_pending:
  assumes "dedup_inv s" and "in_flight s p v"
  shows "pendingRequests (settle stringify config quotaOk now p outcome s) (pendingKey v) = None
         \<and> (\<forall>q. \<not> in_flight (settle stringify config quotaOk now p outcome s) q v)
         \<and> promises (settle stringify config quotaOk now p outcome s) ! p
             = (v, case outcome of
                     Inr resp \<Rightarrow> Fulfilled \<lparr>response = resp, fromCache = False\<rparr>
                   | Inl e \<Rightarrow> RejectedWith e)
         \<and> requested (settle stringify config quotaOk now p outcome s) = requested s"
proof -
  let ?s' = "settle stringify config quotaOk now p outcome s"
  have inv': "dedup_inv ?s'" using assms(1) by (rule inv_settle)
  have gone: "pendingRequests ?s' (pendingKey v) = None"
    by (simp add: settle_eq [OF assms(2)])
  have "\<not> in_flight ?s' q v" for q
    using inv' gone by (auto simp: dedup_inv_def)
  moreover have "promises ?s' ! p = (v, case outcome of
                     Inr resp \<Rightarrow> Fulfilled \<lparr>response = resp, fromCache = False\<rparr>
                   | Inl e \<Rightarrow> RejectedWith e)"
    using assms(2) by (simp add: settle_eq [OF assms(2)] in_flight_def)
  moreover have "requested ?s' = requested s"
    by (simp add: settle_eq [OF assms(2)])
  ultimately show ?thesis using gone by blast
qed

text \<open>
  C3: in every state reached from the initial one by calls and settlements,
  \<^item> at most one request per identifier is in flight;
  \<^item> a call for an identifier whose request is in flight, when the cache does not hit,
    returns the promise of that request and issues no request: both callers await the same
    promise, hence the same outcome;
  \<^item> a call for an identifier with no request in flight, when the cache does not hit,
    issues exactly one request and registers it;
  \<^item> settling the request of an identifier, with success or with failure, removes the
    pending entry and hands the outcome to the promise, and a later call for the
    identifier that misses the cache issues a fresh request.
\<close>

theorem C3_request_deduplication:
  assumes "s = run parse stringify config es (init ls0)"
  shows "(\<forall>v p q. in_flight s p v \<and> in_flight s q v \<longrightarrow> p = q)
    \<and> (\<forall>v p now uc s' r.
          in_flight s p v \<and> getCommonFollowings parse now v uc s = (s', r)
          \<and> (\<forall>c. r \<noteq> Immediately c)
          \<longrightarrow> r = Awaiting p \<and> requested s' = requested s \<and> promises s' = promises s)
    \<and> (\<forall>v now uc s' r.
          (\<forall>p. \<not> in_flight s p v) \<and> getCommonFollowings parse now v uc s = (s', r)
          \<and> (\<forall>c. r \<noteq> Immediately c)
          \<longrightarrow> r = Awaiting (length (promises s)) \<and> requested s' = requested s @ [v]
              \<and> in_flight s' (length (promises s)) v)
    \<and> (\<forall>v p now quotaOk outcome s'.
          in_flight s p v \<and> s' = settle stringify config quotaOk now p outcome s
          \<longrightarrow> pendingRequests s' (pendingKey v) = None
              \<and> (\<forall>q. \<not> in_flight s' q v)
              \<and> promises s' ! p
                   = (v, case outcome of
                           Inr resp \<Rightarrow> Fulfilled \<lparr>response = resp, fromCache = False\<rparr>
                         | Inl e \<Rightarrow> RejectedWith e)
              \<and> requested s' = requested s
              \<and> (\<forall>now' uc s'' r.
                    getCommonFollowings parse now' v uc s' = (s'', r) \<and> (\<forall>c. r \<noteq> Immediately c)
                    \<longrightarrow> r = Awaiting (length (promises s'))
                        \<and> requested s'' = requested s @ [v]))"
proof -
  have inv: "dedup_inv s"
    unfolding assms by (rule inv_run) (rule inv_init)
  have one: "\<forall>v p q. in_flight s p v \<and> in_flight s q v \<longrightarrow> p = q"
    using in_flight_unique [OF inv] by blast
  have share: "\<forall>v p now uc s' r.
          in_flight s p v \<and> getCommonFollowings parse now v uc s = (s', r)
          \<and> (\<forall>c. r \<noteq> Immediately c)
          \<longrightarrow> r = Awaiting p \<and> requested s' = requested s \<and> promises s' = promises s"
    using call_while_in_flight [OF inv] by blast
  have idle: "\<forall>v now uc s' r.
          (\<forall>p. \<not> in_flight s p v) \<and> getCommonFollowings parse now v uc s = (s', r)
          \<and> (\<forall>c. r \<noteq> Immediately c)
          \<longrightarrow> r = Awaiting (length (promises s)) \<and> requested s' = requested s @ [v]
              \<and> in_flight s' (length (promises s)) v"
    using call_when_idle [OF inv] by blast
  have fin: "pendingRequests s' (pendingKey v) = None
              \<and> (\<forall>q. \<not> in_flight s' q v)
              \<and> promises s' ! p
                   = (v, case outcome of
                           Inr resp \<Rightarrow> Fulfilled \<lparr>response = resp, fromCache = False\<rparr>
                         | Inl e \<Rightarrow> RejectedWith e)
              \<and> requested s' = requested s
              \<and> (\<forall>now' uc s'' r.
                    getCommonFollowings parse now' v uc s' = (s'', r) \<and> (\<forall>c. r \<noteq> Immediately c)
                    \<longrightarrow> r = Awaiting (length (promises s'))
                        \<and> requested s'' = requested s @ [v])"
    if a: "in_flight s p v" and b: "s' = settle stringify config quotaOk now p outcome s"
    for v p now quotaOk outcome s'
  proof -
    have inv': "dedup_inv s'" unfolding b using inv by (rule inv_settle)
    from settle_removes_pending [OF inv a, of stringify config quotaOk now outcome]
    have r: "pendingRequests s' (pendingKey v) = None" "\<forall>q. \<not> in_flight s' q v"
      "promises s' ! p = (v, case outcome of
                           Inr resp \<Rightarrow> Fulfilled \<lparr>response = resp, fromCache = False\<rparr>
                         | Inl e \<Rightarrow> RejectedWith e)"
      "requested s' = requested s"
      unfolding b by blast+
    have "r' = Awaiting (length (promises s')) \<and> requested s'' = requested s @ [v]"
      if "getCommonFollowings parse now' v uc s' = (s'', r')" and "\<forall>c. r' \<noteq> Immediately c"
      for now' uc s'' r'
      using call_when_idle [OF inv' r(2) that] r(4) by simp
    with r show ?thesis by blast
  qed
  have fin': "\<forall>v p now quotaOk outcome s'.
          in_flight s p v \<and> s' = settle stringify config quotaOk now p outcome s
          \<longrightarrow> pendingRequests s' (pendingKey v) = None
              \<and> (\<forall>q. \<not> in_flight s' q v)
              \<and> promises s' ! p
                   = (v, case outcome of
                           Inr resp \<Rightarrow> Fulfilled \<lparr>response = resp, fromCache = False\<rparr>
                         | Inl e \<Rightarrow> RejectedWith e)
              \<and> requested s' = requested s
              \<and> (\<forall>now' uc s'' r.
                    getCommonFollowings parse now' v uc s' = (s'', r) \<and> (\<forall>c. r \<noteq> Immediately c)
                    \<longrightarrow> r = Awaiting (length (promises s'))
                        \<and> requested s'' = requested s @ [v])"
    by (intro allI impI) (elim conjE, rule fin, assumption+)
  show ?thesis
    by (intro conjI one share idle fin')
qed


theorem C3_request_deduplication_witness:
  "in_flight
     (run (\<lambda>t. Inl SyntaxError :: exn + bool parsed) (\<lambda>i. []) DEFAULT_CONFIG
        [Call 7 True 0] (init Map.empty)) 0 7
   \<and> snd (getCommonFollowings (\<lambda>t. Inl SyntaxError :: exn + bool parsed) 5 7 True
        (run (\<lambda>t. Inl SyntaxError :: exn + bool parsed) (\<lambda>i. []) DEFAULT_CONFIG
           [Call 7 True 0] (init Map.empty))) = Awaiting 0
   \<and> requested (fst (getCommonFollowings (\<lambda>t. Inl SyntaxError :: exn + bool parsed) 5 7 True
        (run (\<lambda>t. Inl SyntaxError :: exn + bool parsed) (\<lambda>i. []) DEFAULT_CONFIG
           [Call 7 True 0] (init Map.empty)))) = [7]
   \<and> pendingRequests
        (settle (\<lambda>i. []) DEFAULT_CONFIG True 9 0 (Inl (Error MSG_TIMEOUT None))
           (run (\<lambda>t. Inl SyntaxError :: exn + bool parsed) (\<lambda>i. []) DEFAULT_CONFIG
              [Call 7 True 0] (init Map.empty))) (pendingKey 7) = None"
proof -
  let ?P = "\<lambda>t::jsstring. Inl SyntaxError :: exn + bool parsed"
  let ?S = "\<lambda>i::bool CacheItem. [] :: jsstring"
  define s1 where "s1 = run ?P ?S DEFAULT_CONFIG [Call 7 True 0] (init Map.empty)"
  have s1: "s1 = \<lparr>localStorage = Map.empty, pendingRequests = [pendingKey 7 \<mapsto> 0],
                  promises = [(7, Pending)], requested = [7]\<rparr>"
    by (simp add: s1_def run_def init_def getCommonFollowings_def cache_get_absent)
  have fl: "in_flight s1 0 7"
    by (simp add: s1 in_flight_def)
  obtain s' r where call: "getCommonFollowings ?P 5 7 True s1 = (s', r)"
    by (cases "getCommonFollowings ?P 5 7 True s1") auto
  have miss: "\<forall>c. r \<noteq> Immediately c"
    using call by (auto simp: s1 getCommonFollowings_def cache_get_absent)
  note inst = C3_request_deduplication [OF s1_def]
  have shared: "r = Awaiting 0 \<and> requested s' = requested s1 \<and> promises s' = promises s1"
    by (rule inst [THEN conjunct2, THEN conjunct1, rule_format,
          OF conjI [OF fl conjI [OF call miss]]])
  have gone:
    "pendingRequests (settle ?S DEFAULT_CONFIG True 9 0 (Inl (Error MSG_TIMEOUT None)) s1)
       (pendingKey 7) = None"
    by (rule inst [THEN conjunct2, THEN conjunct2, THEN conjunct2, rule_format,
          OF conjI [OF fl refl], THEN conjunct1])
  have "requested s1 = [7]" by (simp add: s1)
  with fl shared gone call show ?thesis
    unfolding s1_def [symmetric] by simp
qed

subsection \<open>Loaders\<close>

lemma loadOne_fetched: "loadOne getCF k = Inr (fetched getCF k)"
  by (simp add: loadOne_def fetched_def try_catch_def split: sum.splits)

lemma runBatch_result:
  "runBatch getCF batch m
     = Inr (\<lambda>k. if k \<in> set batch then Some (fetched getCF k) else m k)"
proof (induction batch arbitrary: m)
  case Nil
  then show ?case by simp
next
  case (Cons a batch)
  show ?case
    by (simp add: loadOne_fetched Cons.IH) (rule ext, simp)
qed

lemma set_take_drop_step:
  "set (take n (drop i xs)) \<union> set (drop (i + n) xs) = set (drop i xs)"
proof -
  have "drop n (drop i xs) = drop (i + n) xs"
    by (simp add: add.commute)
  then have "drop i xs = take n (drop i xs) @ drop (i + n) xs"
    using append_take_drop_id [of n "drop i xs"] by simp
  then have "set (drop i xs) = set (take n (drop i xs) @ drop (i + n) xs)"
    by simp
  then show ?thesis by simp
qed

lemma batchLoop_result:
  "\<exists>tr'. batchLoop getCF mids i m tr
     = (tr', Inr (\<lambda>k. if k \<in> set (drop i mids) then Some (fetched getCF k) else m k))"
proof (induction getCF mids i m tr rule: batchLoop.induct)
  case (1 getCF mids i m tr)
  show ?case
  proof (cases "i < length mids")
    case False
    then show ?thesis by (subst batchLoop.simps) simp
  next
    case True
    let ?b = "take batchSize (drop i mids)"
    let ?m' = "\<lambda>k. if k \<in> set ?b then Some (fetched getCF k) else m k"
    let ?tr = "tr
                @ (if (i + batchSize) mod 50 = 0 \<or> i + batchSize \<ge> length mids
                   then [Info (min (i + batchSize) (length mids)) (int (length mids))] else [])
                @ (if i + batchSize < length mids then [Sleep 300] else [])"
    have rb: "runBatch getCF ?b m = Inr ?m'" by (rule runBatch_result)
    from "1.IH" [OF True rb] obtain tr' where
      ih: "batchLoop getCF mids (i + batchSize) ?m' ?tr
             = (tr', Inr (\<lambda>k. if k \<in> set (drop (i + batchSize) mids)
                                then Some (fetched getCF k) else ?m' k))"
      by blast
    have eq: "(\<lambda>k. if k \<in> set (drop (i + batchSize) mids)
                                then Some (fetched getCF k) else ?m' k)
       = (\<lambda>k. if k \<in> set (drop i mids) then Some (fetched getCF k) else m k)"
      using set_take_drop_step [of batchSize i mids] by (intro ext) auto
    have "batchLoop getCF mids i m tr = batchLoop getCF mids (i + batchSize) ?m' ?tr"
      using True rb by (subst batchLoop.simps) simp
    with ih eq show ?thesis by simp
  qed
qed

text \<open>
  C6: for every list of identifiers and every behaviour of the fetches, the batch loader
  does not raise; the domain of the map it returns is the set of the identifiers, the entry
  of an identifier whose fetch throws (or whose response lacks the list) is the empty list,
  and the entry of every other identifier is the list of the identifiers in its response.
\<close>

theorem C6_partial_batch_failure:
  "\<exists>tr m. loadCommonFollowingsBatch getCF mids = (tr, Inr m)
     \<and> dom m = set mids
     \<and> (\<forall>k \<in> set mids.
           m k = Some (case getCF k of
                         Inl e \<Rightarrow> []
                       | Inr resp \<Rightarrow> (case commonMidsOf resp of Inl e \<Rightarrow> [] | Inr l \<Rightarrow> l)))"
proof -
  obtain tr where
    "loadCommonFollowingsBatch getCF mids
       = (tr, Inr (\<lambda>k. if k \<in> set mids then Some (fetched getCF k) else None))"
    using batchLoop_result [of getCF mids 0 Map.empty "[]"]
    by (auto simp: loadCommonFollowingsBatch_def)
  then show ?thesis
    by (auto simp: fetched_def dom_def)
qed


theorem C6_partial_batch_failure_witness:
  "case snd (loadCommonFollowingsBatch
        (\<lambda>k. if k = 2 then Inl (Thrown (Error MSG_NETWORK_FAILED None))
             else Inr \<lparr>code = 0, resp_message = [],
                      rdata = Some \<lparr>list = Some [\<lparr>mid = k + 10, uname = [], vipStatus = 0\<rparr>],
                                    total = 1\<rparr>\<rparr>)
        [1, 2, 3]) of
     Inl e \<Rightarrow> False
   | Inr m \<Rightarrow> m 1 = Some [11] \<and> m 2 = Some [] \<and> m 3 = Some [13] \<and> m 4 = None"
proof -
  let ?g = "\<lambda>k::nat. if k = 2 then Inl (Thrown (Error MSG_NETWORK_FAILED None))
             else Inr \<lparr>code = 0, resp_message = [],
                      rdata = Some \<lparr>list = Some [\<lparr>mid = k + 10, uname = [], vipStatus = 0\<rparr>],
                                    total = 1\<rparr>\<rparr>"
  from C6_partial_batch_failure [of ?g "[1, 2, 3]"]
  obtain tr m where r: "loadCommonFollowingsBatch ?g [1, 2, 3] = (tr, Inr m)"
    and d: "dom m = set [1, 2, 3]"
    and v: "\<forall>k \<in> set [1, 2, 3].
           m k = Some (case ?g k of
                         Inl e \<Rightarrow> []
                       | Inr resp \<Rightarrow> (case commonMidsOf resp of Inl e \<Rightarrow> [] | Inr l \<Rightarrow> l))"
    by blast
  from d have "4 \<notin> dom m" by simp
  then have "m 4 = None" by blast
  moreover from v have "m 1 = Some [11]" "m 2 = Some []" "m 3 = Some [13]"
    by (simp_all add: commonMidsOf_def)
  ultimately show ?thesis unfolding r by simp
qed

lemma sleeps_append: "sleeps (a @ b) = sleeps a @ sleeps b"
  by (induction a rule: sleeps.induct) simp_all

lemma batch_count_step:
  "i + 10 < (n::nat) \<Longrightarrow> (n - i - 1) div 10 = Suc ((n - (i + 10) - 1) div 10)"
  by arith

lemma batch_count_last:
  "i < (n::nat) \<Longrightarrow> \<not> i + 10 < n \<Longrightarrow> (n - i - 1) div 10 = 0"
  by arith

lemma batchLoop_sleeps:
  "sleeps (fst (batchLoop getCF mids i m tr))
     = sleeps tr @ replicate ((length mids - i - 1) div batchSize) 300"
proof (induction getCF mids i m tr rule: batchLoop.induct)
  case (1 getCF mids i m tr)
  show ?case
  proof (cases "i < length mids")
    case False
    then have "batchLoop getCF mids i m tr = (tr, Inr m)"
      by (subst batchLoop.simps) simp
    moreover from False have "(length mids - i - 1) div batchSize = 0"
      by simp
    ultimately show ?thesis by simp
  next
    case True
    let ?b = "take batchSize (drop i mids)"
    let ?m' = "\<lambda>k. if k \<in> set ?b then Some (fetched getCF k) else m k"
    let ?tr = "tr
                @ (if (i + batchSize) mod 50 = 0 \<or> i + batchSize \<ge> length mids
                   then [Info (min (i + batchSize) (length mids)) (int (length mids))] else [])
                @ (if i + batchSize < length mids then [Sleep 300] else [])"
    have rb: "runBatch getCF ?b m = Inr ?m'" by (rule runBatch_result)
    have unf: "batchLoop getCF mids i m tr = batchLoop getCF mids (i + batchSize) ?m' ?tr"
      using True rb by (subst batchLoop.simps) simp
    have ih: "sleeps (fst (batchLoop getCF mids (i + batchSize) ?m' ?tr))
                = sleeps ?tr @ replicate ((length mids - (i + batchSize) - 1) div batchSize) 300"
      by (rule "1.IH" [OF True rb])
    show ?thesis
    proof (cases "i + batchSize < length mids")
      case more: True
      have n: "(length mids - i - 1) div batchSize
              = Suc ((length mids - (i + batchSize) - 1) div batchSize)"
        using more unfolding batchSize_def by (rule batch_count_step)
      have t: "sleeps ?tr = sleeps tr @ [300]"
        using more by (simp add: sleeps_append)
      show ?thesis
        unfolding unf ih t n by simp
    next
      case last: False
      have n: "(length mids - i - 1) div batchSize = 0"
        using True last unfolding batchSize_def by (rule batch_count_last)
      have n': "(length mids - (i + batchSize) - 1) div batchSize = 0"
        using last by simp
      have t: "sleeps ?tr = sleeps tr"
        using last by (simp add: sleeps_append)
      show ?thesis
        unfolding unf ih t n n' by simp
    qed
  qed
qed

lemma loadRelations_sleeps:
  "sleeps (trace (loadRelations getCF S uids st))
     = sleeps (trace st) @ List.map_filter (pacing getCF) uids"
proof (induction uids arbitrary: st)
  case Nil
  then show ?case by (simp add: List.map_filter_simps)
next
  case (Cons u uids)
  show ?case
    by (simp add: Cons.IH List.map_filter_simps pacing_def relationsOf_def sleeps_append
        split: sum.splits prod.splits)
qed

text \<open>
  C7, as stated, fails. In the relation loop a result served from the cache is followed by
  a sleep of 10 ms: the sleep is shortened, not skipped. The batch loader receives the bare
  response and cannot tell a cached one; with eleven identifiers it sleeps 300 ms between
  its two batches whatever the fetches return.
\<close>

theorem C7_pacing_counterexample:
  "sleeps (trace (loadRelations
      (\<lambda>u. Inr \<lparr>response = \<lparr>code = 0, resp_message = [],
                              rdata = Some \<lparr>list = Some [], total = 0\<rparr>\<rparr>,
               fromCache = True\<rparr>)
      {} [7] \<lparr>following = Map.empty, newLinks = [], trace = []\<rparr>)) = [10]
   \<and> sleeps (fst (loadCommonFollowingsBatch
      (\<lambda>k. Inr \<lparr>code = 0, resp_message = [], rdata = Some \<lparr>list = Some [], total = 0\<rparr>\<rparr>)
      [1, 2, 3, 4, 5, 6, 7, 8, 9, 10, 11])) = [300]"
proof
  show "sleeps (trace (loadRelations
      (\<lambda>u. Inr \<lparr>response = \<lparr>code = 0, resp_message = [],
                              rdata = Some \<lparr>list = Some [], total = 0\<rparr>\<rparr>,
               fromCache = True\<rparr>)
      {} [7] \<lparr>following = Map.empty, newLinks = [], trace = []\<rparr>)) = [10]"
    by (subst loadRelations_sleeps)
      (simp add: List.map_filter_simps pacing_def commonMidsOf_def)
next
  show "sleeps (fst (loadCommonFollowingsBatch
      (\<lambda>k. Inr \<lparr>code = 0, resp_message = [], rdata = Some \<lparr>list = Some [], total = 0\<rparr>\<rparr>)
      [1, 2, 3, 4, 5, 6, 7, 8, 9, 10, 11])) = [300]"
    unfolding loadCommonFollowingsBatch_def
    by (subst batchLoop_sleeps) (simp add: batchSize_def)
qed

text \<open>
  C7, amended: the batch loader sleeps 300 ms after every batch of ten but the last,
  whatever the fetches return and wherever the results come from; the relation loop sleeps
  after every identifier whose fetch succeeds, 300 ms when the result came from the network
  and 10 ms when it came from the cache, and not at all after a failed fetch.
\<close>

theorem C7_pacing:
  "sleeps (fst (loadCommonFollowingsBatch getCF mids))
     = replicate ((length mids - 1) div batchSize) 300
   \<and> sleeps (trace (loadRelations getCF' S uids
        \<lparr>following = Map.empty, newLinks = [], trace = []\<rparr>))
     = List.map_filter (pacing getCF') uids"
  by (simp add: loadCommonFollowingsBatch_def batchLoop_sleeps loadRelations_sleeps)

theorem C7_pacing_witness:
  "sleeps (fst (loadCommonFollowingsBatch
      (\<lambda>k. Inl TypeError) [1, 2, 3, 4, 5, 6, 7, 8, 9, 10, 11, 12])) = [300]
   \<and> sleeps (trace (loadRelations
      (\<lambda>u. Inr \<lparr>response = \<lparr>code = 0, resp_message = [],
                              rdata = Some \<lparr>list = Some [], total = 0\<rparr>\<rparr>,
               fromCache = (u = 7)\<rparr>)
      {} [7, 8] \<lparr>following = Map.empty, newLinks = [], trace = []\<rparr>)) = [10, 300]"
  using C7_pacing [of "\<lambda>k. Inl TypeError" "[1, 2, 3, 4, 5, 6, 7, 8, 9, 10, 11, 12]"
      "\<lambda>u. Inr \<lparr>response = \<lparr>code = 0, resp_message = [],
                              rdata = Some \<lparr>list = Some [], total = 0\<rparr>\<rparr>,
               fromCache = (u = 7)\<rparr>" "{}" "[7, 8]"]
  by (simp add: batchSize_def List.map_filter_simps pacing_def commonMidsOf_def)

text \<open>
  C5: when page 1 reports a total of 125 (page size 50) and the three pages are served
  with their lists, the paging block issues exactly the requests for the pages 1, 2 and 3,
  in this order, and returns the three lists concatenated in page order: 125 items when
  the pages hold 50, 50 and 25.
\<close>

theorem C5_pagination_scenario:
  assumes "getFollowingsList \<lparr>vmid = v, ps = 50, pn = 1\<rparr> = Inr r1"
    and "rdata r1 = Some \<lparr>list = Some l1, total = 125\<rparr>"
    and "getFollowingsList \<lparr>vmid = v, ps = 50, pn = 2\<rparr> = Inr r2"
    and "rdata r2 = Some d2" and "list d2 = Some l2"
    and "getFollowingsList \<lparr>vmid = v, ps = 50, pn = 3\<rparr> = Inr r3"
    and "rdata r3 = Some d3" and "list d3 = Some l3"
  shows "fetchAllFollowings getFollowingsList v
           = ([Fetch 1, Fetch 2, Fetch 3], Inr (l1 @ l2 @ l3))
         \<and> (length l1 = 50 \<and> length l2 = 50 \<and> length l3 = 25
              \<longrightarrow> length (l1 @ l2 @ l3) = 125)"
proof -
  have tp: "\<lceil>real_of_int 125 / real pageSize\<rceil> = 3"
    by (simp add: pageSize_def)
  have p4: "remainingPages getFollowingsList v 125 3 4 acc tr = (tr, Inr acc)" for acc tr
    by (subst remainingPages.simps) simp
  have p3: "remainingPages getFollowingsList v 125 3 3 acc tr
              = (tr @ [Fetch 3], Inr (acc @ l3))" for acc tr
    by (subst remainingPages.simps) (simp add: assms pageSize_def p4)
  have p2: "remainingPages getFollowingsList v 125 3 2 acc tr
              = (tr @ [Fetch 2, Fetch 3], Inr (acc @ l2 @ l3))" for acc tr
    by (subst remainingPages.simps) (simp add: assms pageSize_def p3)
  show ?thesis
    using assms(1,2) by (simp add: fetchAllFollowings_def pageSize_def p2 tp [unfolded pageSize_def])
qed

theorem C5_pagination_scenario_witness:
  "fetchAllFollowings
     (\<lambda>p. Inr \<lparr>code = 0, resp_message = [],
              rdata = Some \<lparr>list = Some (replicate (if pn p = 3 then 25 else 50)
                                           \<lparr>mid = nat (pn p), uname = [], vipStatus = 0\<rparr>),
                            total = 125\<rparr>\<rparr>) 1
     = ([Fetch 1, Fetch 2, Fetch 3],
        Inr (replicate 50 \<lparr>mid = 1, uname = [], vipStatus = 0\<rparr>
             @ replicate 50 \<lparr>mid = 2, uname = [], vipStatus = 0\<rparr>
             @ replicate 25 \<lparr>mid = 3, uname = [], vipStatus = 0\<rparr>))
   \<and> length (replicate 50 \<lparr>mid = 1, uname = [], vipStatus = 0\<rparr>
             @ replicate 50 \<lparr>mid = 2, uname = [], vipStatus = 0\<rparr>
             @ replicate 25 \<lparr>mid = 3, uname = [], vipStatus = 0\<rparr>) = 125"
proof -
  let ?g = "\<lambda>p. Inr \<lparr>code = 0, resp_message = [],
              rdata = Some \<lparr>list = Some (replicate (if pn p = 3 then 25 else 50)
                                           \<lparr>mid = nat (pn p), uname = [], vipStatus = 0\<rparr>),
                            total = 125\<rparr>\<rparr> :: exn + FansResponse"
  let ?i1 = "\<lparr>mid = 1, uname = [], vipStatus = 0\<rparr> :: FansItem"
  let ?i2 = "\<lparr>mid = 2, uname = [], vipStatus = 0\<rparr> :: FansItem"
  let ?i3 = "\<lparr>mid = 3, uname = [], vipStatus = 0\<rparr> :: FansItem"
  let ?d1 = "\<lparr>list = Some (replicate 50 ?i1), total = 125\<rparr>"
  let ?d2 = "\<lparr>list = Some (replicate 50 ?i2), total = 125\<rparr>"
  let ?d3 = "\<lparr>list = Some (replicate 25 ?i3), total = 125\<rparr>"
  let ?r1 = "\<lparr>code = 0, resp_message = [], rdata = Some ?d1\<rparr>"
  let ?r2 = "\<lparr>code = 0, resp_message = [], rdata = Some ?d2\<rparr>"
  let ?r3 = "\<lparr>code = 0, resp_message = [], rdata = Some ?d3\<rparr>"
  have a1: "?g \<lparr>vmid = 1, ps = 50, pn = 1\<rparr> = Inr ?r1" by simp
  have a2: "?g \<lparr>vmid = 1, ps = 50, pn = 2\<rparr> = Inr ?r2" by simp
  have a3: "?g \<lparr>vmid = 1, ps = 50, pn = 3\<rparr> = Inr ?r3" by simp
  have b1: "rdata ?r1 = Some \<lparr>list = Some (replicate 50 ?i1), total = 125\<rparr>" by simp
  have b2: "rdata ?r2 = Some ?d2" by simp
  have b3: "rdata ?r3 = Some ?d3" by simp
  have c2: "list ?d2 = Some (replicate 50 ?i2)" by simp
  have c3: "list ?d3 = Some (replicate 25 ?i3)" by simp
  note C5_pagination_scenario [OF a1 b1 a2 b2 c2 a3 b3 c3]
  then show ?thesis by simp
qed

subsection \<open>Graph construction\<close>

lemma map_set_new: "\<not> map_has m k \<Longrightarrow> map_set m k v = m @ [(k, v)]"
  by (simp add: map_set_def)

lemma no_dash_in_toString: "45 \<notin> set (toString n)"
  using toString_digits [of n] by (auto simp: isDigit_def)

lemma takeWhile_linkKeyOf:
  "takeWhile (\<lambda>x. x \<noteq> 45) (linkKeyOf (toString m) t) = toString m"
proof -
  have "\<And>x. x \<in> set (toString m) \<Longrightarrow> x \<noteq> 45"
    using no_dash_in_toString [of m] by auto
  then have "takeWhile (\<lambda>x. x \<noteq> 45) (toString m @ (45 # t))
               = toString m @ takeWhile (\<lambda>x. x \<noteq> 45) (45 # t)"
    by (rule takeWhile_append2)
  then show ?thesis by (simp add: linkKeyOf_def ascii_def)
qed

lemma linkKeyOf_inj:
  assumes "linkKeyOf (toString a) t = linkKeyOf (toString c) t'"
  shows "toString a = toString c \<and> t = t'"
proof -
  from assms takeWhile_linkKeyOf [of a t] takeWhile_linkKeyOf [of c t']
  have "toString a = toString c" by simp
  with assms show ?thesis by (simp add: linkKeyOf_def)
qed

lemma nodes_inv_addNode:
  assumes "nodes_inv m"
  shows "nodes_inv (addNode m u)"
proof (cases "map_has m (toString (mid u))")
  case True
  with assms show ?thesis by (simp add: addNode_def)
next
  case False
  let ?n = "\<lparr>node_id = toString (mid u), label = uname u,
             color = (if vipStatus u \<noteq> 0 then NODE_COLOR_VIP else NODE_COLOR_NORMAL),
             node_size = 1\<rparr>"
  from False have eq: "addNode m u = m @ [(toString (mid u), ?n)]"
    by (simp add: addNode_def map_set_new Let_def)
  from False have "toString (mid u) \<notin> set (map fst m)"
    by (simp add: map_has_def)
  with assms have "distinct (map fst (m @ [(toString (mid u), ?n)]))"
    by (simp add: nodes_inv_def)
  moreover have "\<forall>(i, n) \<in> set (m @ [(toString (mid u), ?n)]).
                   node_id n = i \<and> (\<exists>a. i = toString a)"
    using assms unfolding nodes_inv_def by auto
  ultimately show ?thesis unfolding eq nodes_inv_def by blast
qed

lemma nodes_inv_foldl: "nodes_inv m \<Longrightarrow> nodes_inv (foldl addNode m fl)"
  by (induction fl arbitrary: m) (simp_all add: nodes_inv_addNode)

lemma allNodes_ids:
  "distinct (map node_id (allNodesOf fl))
   \<and> (\<forall>n \<in> set (allNodesOf fl). \<exists>a. node_id n = toString a)"
proof -
  let ?m = "foldl addNode [] fl"
  have inv: "nodes_inv ?m"
    by (rule nodes_inv_foldl) (simp add: nodes_inv_def)
  then have ent: "\<And>i n. (i, n) \<in> set ?m \<Longrightarrow> node_id n = i \<and> (\<exists>a. i = toString a)"
    unfolding nodes_inv_def by blast
  then have "map (node_id \<circ> snd) ?m = map fst ?m"
    by (intro map_cong refl) (auto simp: prod_eq_iff)
  then have m: "map node_id (allNodesOf fl) = map fst ?m"
    by (simp add: allNodesOf_def)
  have d: "distinct (map node_id (allNodesOf fl))"
    unfolding m using inv by (simp add: nodes_inv_def)
  have "\<exists>a. node_id n = toString a" if "n \<in> set (allNodesOf fl)" for n
  proof -
    from that obtain i where "(i, n) \<in> set ?m"
      by (auto simp: allNodesOf_def)
    with ent show ?thesis by metis
  qed
  with d show ?thesis by blast
qed


lemma edges_inv_addEdge:
  assumes "edges_inv ids acc" and "node_id node \<in> ids"
    and tgt: "\<And>c. Some c \<in> fms \<Longrightarrow> toString c \<in> ids"
  shows "edges_inv ids (addEdge fms node acc c)"
proof -
  obtain E S where acc: "acc = (E, S)" by (cases acc)
  let ?k = "linkKeyOf (node_id node) (toString c)"
  show ?thesis
  proof (cases "Some c \<in> fms \<and> ?k \<notin> S")
    case False
    then have "addEdge fms node acc c = acc"
      by (auto simp: addEdge_def acc Let_def)
    with assms(1) show ?thesis by simp
  next
    case True
    from assms(1) have S: "S = fst ` set E" by (simp add: edges_inv_def acc)
    with True have "\<not> map_has E ?k" by (simp add: map_has_def)
    with True have eq: "addEdge fms node acc c
                          = (E @ [(?k, node_id node, toString c)], insert ?k S)"
      by (simp add: addEdge_def acc Let_def map_set_new)
    from True tgt have "toString c \<in> ids" by blast
    with assms(1,2) S show ?thesis
      unfolding eq by (auto simp: edges_inv_def acc)
  qed
qed

lemma edges_inv_addEdges:
  assumes "edges_inv ids acc" and "node_id node \<in> ids"
    and tgt: "\<And>c. Some c \<in> fms \<Longrightarrow> toString c \<in> ids"
  shows "edges_inv ids (foldl (addEdge fms node) acc cs)"
  using assms(1)
proof (induction cs arbitrary: acc)
  case Nil
  then show ?case by simp
next
  case (Cons c cs)
  from Cons.prems have "edges_inv ids (addEdge fms node acc c)"
    using assms(2) tgt by (rule edges_inv_addEdge)
  then show ?case by (simp add: Cons.IH)
qed

lemma edges_inv_addEdgesOf:
  assumes "edges_inv ids acc" and "node_id node \<in> ids"
    and tgt: "\<And>c. Some c \<in> fms \<Longrightarrow> toString c \<in> ids"
  shows "edges_inv ids (addEdgesOf cfm fms acc node)"
  using assms edges_inv_addEdges [OF assms(1,2) tgt]
  by (simp add: addEdgesOf_def split: option.splits)

lemma edges_inv_nodes:
  assumes "edges_inv ids acc" and "node_id ` set ns \<subseteq> ids"
    and tgt: "\<And>c. Some c \<in> fms \<Longrightarrow> toString c \<in> ids"
  shows "edges_inv ids (foldl (addEdgesOf cfm fms) acc ns)"
  using assms(1,2)
proof (induction ns arbitrary: acc)
  case Nil
  then show ?case by simp
next
  case (Cons n ns)
  from Cons.prems have "edges_inv ids (addEdgesOf cfm fms acc n)"
    using tgt by (intro edges_inv_addEdgesOf) auto
  with Cons.prems(2) show ?case by (simp add: Cons.IH)
qed

lemma edgeMapOf_entries:
  assumes "(k, s, t) \<in> set (edgeMapOf (allNodesOf fl) cfm)"
  shows "k = linkKeyOf s t \<and> s \<in> node_id ` set (allNodesOf fl)
         \<and> t \<in> node_id ` set (allNodesOf fl)"
proof -
  let ?ns = "allNodesOf fl"
  let ?ids = "node_id ` set ?ns"
  let ?fms = "set (map (\<lambda>n. parseInt (node_id n)) ?ns)"
  have tgt: "toString c \<in> ?ids" if "Some c \<in> ?fms" for c
  proof -
    from that obtain n where n: "n \<in> set ?ns" "parseInt (node_id n) = Some c"
      by auto
    from n(1) allNodes_ids [of fl] obtain a where "node_id n = toString a" by blast
    with n(2) have "node_id n = toString c" by (simp add: parseInt_toString)
    with n(1) show ?thesis by force
  qed
  have "edges_inv ?ids (foldl (addEdgesOf cfm ?fms) ([], {}) ?ns)"
    by (rule edges_inv_nodes) (simp_all add: edges_inv_def tgt)
  with assms show ?thesis
    by (auto simp: edgeMapOf_def edges_inv_def split: prod.splits)
qed

lemma edge_keys_inj:
  assumes "(k, s, t) \<in> set (edgeMapOf (allNodesOf fl) cfm)"
    and "(k', s', t') \<in> set (edgeMapOf (allNodesOf fl) cfm)"
  shows "k = linkKeyOf s t" and "k' = linkKeyOf s' t'"
    and "linkKeyOf s t = linkKeyOf s' t' \<Longrightarrow> s = s' \<and> t = t'"
    and "linkKeyOf s t = linkKeyOf t' s' \<Longrightarrow> s = t' \<and> t = s'"
proof -
  from edgeMapOf_entries [OF assms(1)] edgeMapOf_entries [OF assms(2)]
  have e: "k = linkKeyOf s t" "k' = linkKeyOf s' t'"
    and ids: "s \<in> node_id ` set (allNodesOf fl)" "t \<in> node_id ` set (allNodesOf fl)"
      "s' \<in> node_id ` set (allNodesOf fl)" "t' \<in> node_id ` set (allNodesOf fl)"
    by blast+
  from ids allNodes_ids [of fl] obtain a b c d where
    ts: "s = toString a" "t = toString b" "s' = toString c" "t' = toString d"
    by (metis imageE)
  show "k = linkKeyOf s t" "k' = linkKeyOf s' t'" by (rule e)+
  show "s = s' \<and> t = t'" if "linkKeyOf s t = linkKeyOf s' t'"
    using that linkKeyOf_inj [of a t c t'] unfolding ts by simp
  show "s = t' \<and> t = s'" if "linkKeyOf s t = linkKeyOf t' s'"
    using that linkKeyOf_inj [of a t d s'] unfolding ts by simp
qed

lemma foldl_markBidirectional:
  "foldl (markBidirectional E) B E'
     = B \<union> {x. \<exists>k s t. (k, s, t) \<in> set E' \<and> map_has E (linkKeyOf t s)
                       \<and> (x = k \<or> x = linkKeyOf t s)}"
proof (induction E' arbitrary: B)
  case Nil
  then show ?case by simp
next
  case (Cons e E')
  obtain k s t where e: "e = (k, s, t)" by (cases e)
  show ?case
    unfolding foldl_Cons Cons.IH e
    by (auto simp: markBidirectional_def Let_def)
qed

lemma bidirectional_iff_reverse:
  assumes "(k, s, t) \<in> set (edgeMapOf (allNodesOf fl) cfm)"
  shows "k \<in> foldl (markBidirectional (edgeMapOf (allNodesOf fl) cfm)) {}
                (edgeMapOf (allNodesOf fl) cfm)
         \<longleftrightarrow> (linkKeyOf t s, t, s) \<in> set (edgeMapOf (allNodesOf fl) cfm)"
    (is "k \<in> ?bs \<longleftrightarrow> ?rev")
proof
  let ?E = "edgeMapOf (allNodesOf fl) cfm"
  have has: "(linkKeyOf b a, b, a) \<in> set ?E"
    if "map_has ?E (linkKeyOf b a)" and "(k0, a, b) \<in> set ?E" for a b k0
  proof -
    from that(1) obtain s'' t'' where x: "(linkKeyOf b a, s'', t'') \<in> set ?E"
      by (auto simp: map_has_def)
    from edge_keys_inj(1) [OF x x] have "linkKeyOf b a = linkKeyOf s'' t''" .
    then have "linkKeyOf s'' t'' = linkKeyOf b a" by simp
    from edge_keys_inj(4) [OF x that(2) this] have "s'' = b \<and> t'' = a" .
    with x show ?thesis by simp
  qed
  assume "k \<in> ?bs"
  then obtain k' s' t' where e': "(k', s', t') \<in> set ?E"
    and h: "map_has ?E (linkKeyOf t' s')" and c: "k = k' \<or> k = linkKeyOf t' s'"
    unfolding foldl_markBidirectional by blast
  note kk = edge_keys_inj [OF assms e']
  from c show ?rev
  proof
    assume "k = k'"
    with kk(1,2) have "linkKeyOf s t = linkKeyOf s' t'" by simp
    with kk(3) have "s = s' \<and> t = t'" by blast
    with h assms show ?rev using has by blast
  next
    assume "k = linkKeyOf t' s'"
    with kk(1) have "linkKeyOf s t = linkKeyOf t' s'" by simp
    with kk(4) have "s = t' \<and> t = s'" by blast
    with e' kk(2) show ?rev by simp
  qed
next
  let ?E = "edgeMapOf (allNodesOf fl) cfm"
  assume ?rev
  then have "map_has ?E (linkKeyOf t s)" by (force simp: map_has_def)
  with assms show "k \<in> ?bs"
    unfolding foldl_markBidirectional by blast
qed


lemma makeLink_fields:
  "source (makeLink swap bs (k, s, t)) = (if swap then t else s)"
  "target (makeLink swap bs (k, s, t)) = (if swap then s else t)"
  "link_color (makeLink swap bs (k, s, t)) = Some LINK_COLOR_BIDIRECTIONAL \<longleftrightarrow> k \<in> bs"
  by (simp_all add: makeLink_def Let_def)

lemma linksOf_reverse:
  assumes "l \<in> set (linksOf swap (edgeMapOf (allNodesOf fl) cfm))"
  shows "link_color l = Some LINK_COLOR_BIDIRECTIONAL
         \<longleftrightarrow> (\<exists>l' \<in> set (linksOf swap (edgeMapOf (allNodesOf fl) cfm)).
                source l' = target l \<and> target l' = source l)"
proof -
  let ?E = "edgeMapOf (allNodesOf fl) cfm"
  let ?bs = "foldl (markBidirectional ?E) {} ?E"
  have L: "set (linksOf swap ?E) = makeLink swap ?bs ` set ?E"
    by (simp add: linksOf_def)
  from assms obtain k s t where e: "(k, s, t) \<in> set ?E" and l: "l = makeLink swap ?bs (k, s, t)"
    unfolding L by auto
  show ?thesis
  proof
    assume "link_color l = Some LINK_COLOR_BIDIRECTIONAL"
    then have "k \<in> ?bs" by (simp add: l makeLink_fields)
    with bidirectional_iff_reverse [OF e] have r: "(linkKeyOf t s, t, s) \<in> set ?E" by simp
    let ?l' = "makeLink swap ?bs (linkKeyOf t s, t, s)"
    from r have "?l' \<in> set (linksOf swap ?E)" unfolding L by (rule imageI)
    moreover have "source ?l' = target l \<and> target ?l' = source l"
      by (simp add: l makeLink_fields)
    ultimately show "\<exists>l' \<in> set (linksOf swap ?E). source l' = target l \<and> target l' = source l"
      by blast
  next
    assume "\<exists>l' \<in> set (linksOf swap ?E). source l' = target l \<and> target l' = source l"
    then obtain k' s' t' where e': "(k', s', t') \<in> set ?E"
      and x: "source (makeLink swap ?bs (k', s', t')) = target l"
             "target (makeLink swap ?bs (k', s', t')) = source l"
      unfolding L by auto
    from x have "s' = t \<and> t' = s"
      by (cases swap) (simp_all add: l makeLink_fields)
    with e' edge_keys_inj(1) [OF e' e'] have "(linkKeyOf t s, t, s) \<in> set ?E" by simp
    with bidirectional_iff_reverse [OF e] have "k \<in> ?bs" by simp
    then show "link_color l = Some LINK_COLOR_BIDIRECTIONAL"
      by (simp add: l makeLink_fields)
  qed
qed

lemma transform_links:
  assumes "useGraphTransform fl cfm dp loaded = Some g"
  shows "links (graphData g)
           = linksOf (swapLinkDirection dp) (edgeMapOf (allNodesOf fl) cfm)"
  using assms by (auto simp: useGraphTransform_def Let_def split: if_splits)

text \<open>
  C8: in the links built from any follow list and any map of common followings, a link is
  coloured as bidirectional exactly when a link with the opposite endpoints is among the
  links; and whenever a link is coloured so, the opposite link exists and is coloured so
  as well.
\<close>

theorem C8_bidirectional_symmetry:
  assumes "useGraphTransform fl cfm dp loaded = Some g"
  shows "\<forall>l \<in> set (links (graphData g)).
           ((link_color l = Some LINK_COLOR_BIDIRECTIONAL)
              = (\<exists>l' \<in> set (links (graphData g)). source l' = target l \<and> target l' = source l))
           \<and> (link_color l = Some LINK_COLOR_BIDIRECTIONAL
                \<longrightarrow> (\<exists>l' \<in> set (links (graphData g)).
                       source l' = target l \<and> target l' = source l
                       \<and> link_color l' = Some LINK_COLOR_BIDIRECTIONAL))"
proof
  fix l
  assume l: "l \<in> set (links (graphData g))"
  let ?L = "linksOf (swapLinkDirection dp) (edgeMapOf (allNodesOf fl) cfm)"
  have L: "links (graphData g) = ?L" using assms by (rule transform_links)
  have iff: "link_color x = Some LINK_COLOR_BIDIRECTIONAL
         \<longleftrightarrow> (\<exists>l' \<in> set ?L. source l' = target x \<and> target l' = source x)"
    if "x \<in> set ?L" for x
    using that by (rule linksOf_reverse)
  have "\<exists>l' \<in> set ?L. source l' = target l \<and> target l' = source l
                       \<and> link_color l' = Some LINK_COLOR_BIDIRECTIONAL"
    if t: "link_color l = Some LINK_COLOR_BIDIRECTIONAL"
  proof -
    from t l iff [of l] obtain l' where l': "l' \<in> set ?L"
      "source l' = target l" "target l' = source l"
      unfolding L by blast
    from l l'(2,3) have "\<exists>y \<in> set ?L. source y = target l' \<and> target y = source l'"
      unfolding L by auto
    with iff [OF l'(1)] have "link_color l' = Some LINK_COLOR_BIDIRECTIONAL" by simp
    with l' show ?thesis by blast
  qed
  with iff [of l] l show "((link_color l = Some LINK_COLOR_BIDIRECTIONAL)
              = (\<exists>l' \<in> set (links (graphData g)). source l' = target l \<and> target l' = source l))
           \<and> (link_color l = Some LINK_COLOR_BIDIRECTIONAL
                \<longrightarrow> (\<exists>l' \<in> set (links (graphData g)).
                       source l' = target l \<and> target l' = source l
                       \<and> link_color l' = Some LINK_COLOR_BIDIRECTIONAL))"
    unfolding L by blast
qed


lemma degreeOf_countLink:
  "degreeOf (countLink d l) x
     = degreeOf d x + (if source l = x then 1 else 0) + (if target l = x then 1 else 0)"
  by (simp add: countLink_def degreeOf_def Let_def)

lemma degreeOf_foldl:
  "degreeOf (foldl countLink d ls) x = degreeOf d x + incident ls x"
proof (induction ls arbitrary: d)
  case Nil
  then show ?case by (simp add: incident_def)
next
  case (Cons l ls)
  show ?case
    by (simp add: Cons.IH degreeOf_countLink incident_def)
qed

lemma degreeOf_nodeDegreeOf: "degreeOf (nodeDegreeOf ls) x = incident ls x"
  unfolding nodeDegreeOf_def degreeOf_foldl by (simp add: degreeOf_def)

lemma connected_foldl:
  "foldl (\<lambda>s l. insert (target l) (insert (source l) s)) C ls
     = C \<union> source ` set ls \<union> target ` set ls"
  by (induction ls arbitrary: C) auto

lemma connectedNodeIdsOf_eq: "connectedNodeIdsOf ls = source ` set ls \<union> target ` set ls"
  by (simp add: connectedNodeIdsOf_def connected_foldl)

lemma sum_count_endpoint:
  assumes "finite S" and "f ` set ls \<subseteq> S"
  shows "(\<Sum>x\<in>S. length (filter (\<lambda>l. f l = x) ls)) = length ls"
  using assms(2)
proof (induction ls)
  case Nil
  then show ?case by simp
next
  case (Cons a ls)
  then have a: "f a \<in> S" and rest: "f ` set ls \<subseteq> S" by auto
  have "(\<Sum>x\<in>S. length (filter (\<lambda>l. f l = x) (a # ls)))
          = (\<Sum>x\<in>S. (if f a = x then 1 else 0) + length (filter (\<lambda>l. f l = x) ls))"
    by (intro sum.cong refl) simp
  also have "\<dots> = (\<Sum>x\<in>S. if f a = x then 1 else 0)
                    + (\<Sum>x\<in>S. length (filter (\<lambda>l. f l = x) ls))"
    by (rule sum.distrib)
  also have "(\<Sum>x\<in>S. if f a = x then 1 else 0) = (1::nat)"
    using assms(1) a by simp
  finally show ?case using Cons.IH [OF rest] by simp
qed

lemma sum_incident:
  assumes "finite S" and "source ` set ls \<subseteq> S" and "target ` set ls \<subseteq> S"
  shows "(\<Sum>x\<in>S. incident ls x) = 2 * length ls"
  unfolding incident_def sum.distrib
  using sum_count_endpoint [OF assms(1,2)] sum_count_endpoint [OF assms(1,3)] by simp

lemma link_endpoints_are_nodes:
  assumes "l \<in> set (linksOf swap (edgeMapOf (allNodesOf fl) cfm))"
  shows "source l \<in> node_id ` set (allNodesOf fl) \<and> target l \<in> node_id ` set (allNodesOf fl)"
proof -
  let ?E = "edgeMapOf (allNodesOf fl) cfm"
  from assms obtain k s t bs where e: "(k, s, t) \<in> set ?E" and l: "l = makeLink swap bs (k, s, t)"
    by (auto simp: linksOf_def)
  from edgeMapOf_entries [OF e] show ?thesis
    by (simp add: l makeLink_fields)
qed

lemma node_id_sizeNode [simp]: "node_id (sizeNode dp nd n) = node_id n"
  by (simp add: sizeNode_def Let_def)

text \<open>
  C9: the degrees of the retained nodes (those left after the isolated ones are filtered
  out) add up to twice the number of links; the degree of an identifier is the number of
  link endpoints at it, source and target alike; the link count of the statistics is the
  number of links.
\<close>

theorem C9_degree_sum:
  assumes "useGraphTransform fl cfm dp loaded = Some g"
  shows "(\<Sum>n\<leftarrow>nodes (graphData g). degreeOf (nodeDegreeMap g) (node_id n))
           = 2 * length (links (graphData g))
         \<and> (\<forall>x. degreeOf (nodeDegreeMap g) x = incident (links (graphData g)) x)
         \<and> stats_links (stats g) = length (links (graphData g))"
proof -
  let ?ns = "allNodesOf fl"
  let ?ls = "linksOf (swapLinkDirection dp) (edgeMapOf ?ns cfm)"
  let ?C = "connectedNodeIdsOf ?ls"
  from assms have g: "links (graphData g) = ?ls" "nodeDegreeMap g = nodeDegreeOf ?ls"
    "nodes (graphData g)
       = map (sizeNode dp (nodeDegreeOf ?ls)) (filter (\<lambda>node. node_id node \<in> ?C) ?ns)"
    "stats_links (stats g) = length ?ls"
    by (auto simp: useGraphTransform_def Let_def split: if_splits)
  have ids: "map node_id (nodes (graphData g)) = filter (\<lambda>i. i \<in> ?C) (map node_id ?ns)"
    by (simp add: g(3) filter_map comp_def)
  have d: "distinct (map node_id (nodes (graphData g)))"
    unfolding ids using allNodes_ids [of fl] by simp
  have sub: "?C \<subseteq> node_id ` set ?ns"
    unfolding connectedNodeIdsOf_eq using link_endpoints_are_nodes [of _ "swapLinkDirection dp" fl cfm]
    by blast
  have st: "set (map node_id (nodes (graphData g))) = ?C"
    unfolding ids using sub by auto
  have "(\<Sum>n\<leftarrow>nodes (graphData g). degreeOf (nodeDegreeMap g) (node_id n))
          = (\<Sum>i\<leftarrow>map node_id (nodes (graphData g)). incident ?ls i)"
    by (simp add: g(2) degreeOf_nodeDegreeOf comp_def)
  also have "\<dots> = (\<Sum>i\<in>set (map node_id (nodes (graphData g))). incident ?ls i)"
    using d by (rule sum_list_distinct_conv_sum_set)
  also have "\<dots> = (\<Sum>i\<in>?C. incident ?ls i)"
    unfolding st ..
  also have "\<dots> = 2 * length ?ls"
    by (rule sum_incident) (auto simp: connectedNodeIdsOf_eq)
  finally have "(\<Sum>n\<leftarrow>nodes (graphData g). degreeOf (nodeDegreeMap g) (node_id n))
                  = 2 * length (links (graphData g))"
    by (simp add: g(1))
  moreover have "\<forall>x. degreeOf (nodeDegreeMap g) x = incident (links (graphData g)) x"
    by (simp add: g(1,2) degreeOf_nodeDegreeOf)
  ultimately show ?thesis using g(1,4) by simp
qed


lemma scenario_links:
  "linksOf False
     (edgeMapOf
        (allNodesOf [\<lparr>mid = 1, uname = [], vipStatus = 0\<rparr>,
                     \<lparr>mid = 2, uname = [], vipStatus = 1\<rparr>,
                     \<lparr>mid = 3, uname = [], vipStatus = 0\<rparr>])
        [1 \<mapsto> [2], 2 \<mapsto> [1, 3], 3 \<mapsto> []])
   = [\<lparr>source = [49], target = [50], link_color = Some LINK_COLOR_BIDIRECTIONAL\<rparr>,
      \<lparr>source = [50], target = [49], link_color = Some LINK_COLOR_BIDIRECTIONAL\<rparr>,
      \<lparr>source = [50], target = [51], link_color = None\<rparr>]"
  by code_simp


theorem C8_bidirectional_symmetry_witness:
  "\<exists>g. useGraphTransform
           [\<lparr>mid = 1, uname = [], vipStatus = 0\<rparr>,
        \<lparr>mid = 2, uname = [], vipStatus = 1\<rparr>,
        \<lparr>mid = 3, uname = [], vipStatus = 0\<rparr>]
           [1 \<mapsto> [2], 2 \<mapsto> [1, 3], 3 \<mapsto> []]
           \<lparr>nodeSizeMultiplier = 1, nodeMaxSize = 10, swapLinkDirection = False\<rparr> True = Some g
       \<and> map source (links (graphData g)) = [[49], [50], [50]]
       \<and> map target (links (graphData g)) = [[50], [49], [51]]
       \<and> map link_color (links (graphData g))
           = [Some LINK_COLOR_BIDIRECTIONAL, Some LINK_COLOR_BIDIRECTIONAL, None]"
proof -
  let ?fl = "[\<lparr>mid = 1, uname = [], vipStatus = 0\<rparr>,
        \<lparr>mid = 2, uname = [], vipStatus = 1\<rparr>,
        \<lparr>mid = 3, uname = [], vipStatus = 0\<rparr>]"
  let ?cm = "[1 \<mapsto> [2], 2 \<mapsto> [1, 3], 3 \<mapsto> []] :: nat \<rightharpoonup> nat list"
  let ?dp = "\<lparr>nodeSizeMultiplier = 1, nodeMaxSize = 10, swapLinkDirection = False\<rparr>"
  obtain g where g: "useGraphTransform ?fl ?cm ?dp True = Some g"
    by (simp add: useGraphTransform_def Let_def)
  have L: "links (graphData g)
      = [\<lparr>source = [49], target = [50], link_color = Some LINK_COLOR_BIDIRECTIONAL\<rparr>,
         \<lparr>source = [50], target = [49], link_color = Some LINK_COLOR_BIDIRECTIONAL\<rparr>,
         \<lparr>source = [50], target = [51], link_color = None\<rparr>]"
    using transform_links [OF g] scenario_links by simp
  from C8_bidirectional_symmetry [OF g] g L show ?thesis
    by simp
qed

theorem C9_degree_sum_witness:
  "\<exists>g. useGraphTransform
           [\<lparr>mid = 1, uname = [], vipStatus = 0\<rparr>,
        \<lparr>mid = 2, uname = [], vipStatus = 1\<rparr>,
        \<lparr>mid = 3, uname = [], vipStatus = 0\<rparr>]
           [1 \<mapsto> [2], 2 \<mapsto> [1, 3], 3 \<mapsto> []]
           \<lparr>nodeSizeMultiplier = 1, nodeMaxSize = 10, swapLinkDirection = False\<rparr> True = Some g
       \<and> (\<Sum>n\<leftarrow>nodes (graphData g). degreeOf (nodeDegreeMap g) (node_id n)) = 6
       \<and> length (links (graphData g)) = 3"
proof -
  let ?fl = "[\<lparr>mid = 1, uname = [], vipStatus = 0\<rparr>,
        \<lparr>mid = 2, uname = [], vipStatus = 1\<rparr>,
        \<lparr>mid = 3, uname = [], vipStatus = 0\<rparr>]"
  let ?cm = "[1 \<mapsto> [2], 2 \<mapsto> [1, 3], 3 \<mapsto> []] :: nat \<rightharpoonup> nat list"
  let ?dp = "\<lparr>nodeSizeMultiplier = 1, nodeMaxSize = 10, swapLinkDirection = False\<rparr>"
  obtain g where g: "useGraphTransform ?fl ?cm ?dp True = Some g"
    by (simp add: useGraphTransform_def Let_def)
  have "length (links (graphData g)) = 3"
    using transform_links [OF g] scenario_links by simp
  with C9_degree_sum [OF g, THEN conjunct1] g show ?thesis
    by simp
qed

end
